theory Spec2Isabelle
  imports Main "HOL-Library.Char_ord"
begin

section \<open>The rate-limit middleware of the RevenueCat client\<close>

text \<open>
  The development follows \<^verbatim>\<open>src/rateLimitMiddleware.ts\<close>: the class \<^verbatim>\<open>RateLimitManager\<close>
  with its per-endpoint state, and the two hooks \<^verbatim>\<open>onRequest\<close> and \<^verbatim>\<open>onResponse\<close> built on it.
  The source holds two variants of the class. Both have the same \<^verbatim>\<open>getEndpointKey\<close>,
  \<^verbatim>\<open>getRetryAfterTime\<close> and \<^verbatim>\<open>waitForThrottle\<close>; the variant with \<^verbatim>\<open>isRetryable\<close> is the one the
  test suite runs, and it is the one called \<open>handleResponse\<close> here. The variant without the
  retryability check is \<open>handleResponse_v1\<close> (it is the one that also carries the
  \<^verbatim>\<open>processQueue\<close> method, which nothing calls).
\<close>

subsection \<open>Data\<close>

text \<open>A parsed JSON value, as \<^verbatim>\<open>response.json()\<close> resolves to. Numbers keep their literal.\<close>

datatype json =
    JNull
  | JBool bool
  | JNumber string
  | JString string
  | JArray "json list"
  | JObject "(string \<times> json) list"

text \<open>
  A \<^verbatim>\<open>Request\<close>: its method, its serialised absolute URL and its body. A \<^verbatim>\<open>Response\<close>: its
  status, its header list and what reading its body as JSON gives (\<open>None\<close> when
  \<^verbatim>\<open>clone()\<close> or \<^verbatim>\<open>json()\<close> throws).
\<close>

record request =
  httpMethod :: string
  url :: string
  payload :: "string option"

record response =
  status :: int
  headers :: "(string \<times> string) list"
  body :: "json option"

type_synonym options = "(string \<times> string) list"

text \<open>A value thrown by the transport, or by the runtime.\<close>

datatype error = Error string

text \<open>
  \<^verbatim>\<open>QueuedRequest\<close> and \<^verbatim>\<open>EndpointState\<close>. The two callbacks of a queued request are left out:
  no hook ever puts a request in a queue.
\<close>

record QueuedRequest =
  qrequest :: request
  qoptions :: options
  retryCount :: nat

record EndpointState =
  isThrottled :: bool
  retryAfter :: int
  queue :: "QueuedRequest list"
  lastRetryTime :: int
  processing :: bool

text \<open>
  What the hooks share: the clock that \<^verbatim>\<open>Date.now()\<close> reads (milliseconds), the map
  \<^verbatim>\<open>endpointStates\<close> and the lines written with \<^verbatim>\<open>console.warn\<close>.
\<close>

record world =
  now :: int
  endpointStates :: "string \<rightharpoonup> EndpointState"
  console :: "string list"

definition maxRetries :: nat where
  "maxRetries = 3"

definition maxQueueSize :: nat where
  "maxQueueSize = 100"

definition defaultState :: EndpointState where
  "defaultState =
     \<lparr>isThrottled = False, retryAfter = 0, queue = [], lastRetryTime = 0, processing = False\<rparr>"

subsection \<open>The platform functions the class calls\<close>

text \<open>
  \<^verbatim>\<open>Headers.get\<close>: names compare without regard to case, and the values of a repeated
  header are joined with a comma and a space; \<open>None\<close> is \<^verbatim>\<open>null\<close>.
\<close>

definition toLower :: "char \<Rightarrow> char" where
  "toLower c =
     (case map_of (zip ''ABCDEFGHIJKLMNOPQRSTUVWXYZ'' ''abcdefghijklmnopqrstuvwxyz'') c of
        Some l \<Rightarrow> l
      | None \<Rightarrow> c)"

fun joinValues :: "string list \<Rightarrow> string" where
  "joinValues [] = []"
| "joinValues [v] = v"
| "joinValues (v # vs) = v @ '', '' @ joinValues vs"

definition headers_get :: "(string \<times> string) list \<Rightarrow> string \<Rightarrow> string option" where
  "headers_get hs name =
     (let vs = map snd (filter (\<lambda>kv. map toLower (fst kv) = map toLower name) hs)
      in if vs = [] then None else Some (joinValues vs))"

text \<open>
  \<^verbatim>\<open>parseInt(s, 10)\<close>: leading white space is skipped, one sign is read, then the longest run
  of decimal digits; with no digit there the result is \<^verbatim>\<open>NaN\<close> (\<open>None\<close>). Whatever follows
  the digits is ignored. The value is the exact integer (a JavaScript number agrees with
  it up to \<open>2^53\<close>).
\<close>

definition isWhiteSpace :: "char \<Rightarrow> bool" where
  "isWhiteSpace c =
     (c \<in> set [CHR 0x09, CHR 0x0A, CHR 0x0B, CHR 0x0C, CHR 0x0D, CHR 0x20, CHR 0xA0])"

definition isDigit :: "char \<Rightarrow> bool" where
  "isDigit c = (CHR ''0'' \<le> c \<and> c \<le> CHR ''9'')"

definition digitValue :: "char \<Rightarrow> int" where
  "digitValue c = of_char c - 48"

definition digitsValue :: "string \<Rightarrow> int" where
  "digitsValue ds = foldl (\<lambda>acc c. 10 * acc + digitValue c) 0 ds"

definition parseInt :: "string \<Rightarrow> int option" where
  "parseInt s =
     (let S = dropWhile isWhiteSpace s;
          sign = (case S of [] \<Rightarrow> 1 | c # _ \<Rightarrow> if c = CHR ''-'' then - 1 else (1::int));
          S = (case S of [] \<Rightarrow> [] | c # r \<Rightarrow> if c = CHR ''+'' \<or> c = CHR ''-'' then r else S);
          Z = takeWhile isDigit S
      in if Z = [] then None else Some (sign * digitsValue Z))"

text \<open>
  \<^verbatim>\<open>new URL(s).pathname\<close> for the serialised URL of a request,
  \<^verbatim>\<open>scheme://authority/path?query#fragment\<close>: what stands after the authority, up to the
  first \<^verbatim>\<open>?\<close> or \<^verbatim>\<open>#\<close>; an empty path reads as \<^verbatim>\<open>/\<close>.
\<close>

fun afterScheme :: "string \<Rightarrow> string" where
  "afterScheme [] = []"
| "afterScheme (c # cs) =
     (if c = CHR '':'' then
        (case cs of
           a # b # r \<Rightarrow> if a = CHR ''/'' \<and> b = CHR ''/'' then r else cs
         | _ \<Rightarrow> cs)
      else afterScheme cs)"

definition endsAuthority :: "char \<Rightarrow> bool" where
  "endsAuthority c = (c = CHR ''/'' \<or> c = CHR ''?'' \<or> c = CHR ''#'')"

definition endsPath :: "char \<Rightarrow> bool" where
  "endsPath c = (c = CHR ''?'' \<or> c = CHR ''#'')"

definition pathname :: "string \<Rightarrow> string" where
  "pathname u =
     (let p = takeWhile (\<lambda>c. \<not> endsPath c)
                (dropWhile (\<lambda>c. \<not> endsAuthority c) (afterScheme u))
      in if p = [] then ''/'' else p)"

text \<open>
  \<^verbatim>\<open>typeof v === "object"\<close>, and the own properties of a parsed value that a name other than
  an array index or \<^verbatim>\<open>length\<close> can find (\<^verbatim>\<open>name in v\<close>, \<^verbatim>\<open>v[name]\<close>).
\<close>

fun typeofObject :: "json \<Rightarrow> bool" where
  "typeofObject JNull = True"
| "typeofObject (JArray xs) = True"
| "typeofObject (JObject ps) = True"
| "typeofObject v = False"

fun property :: "json \<Rightarrow> string \<Rightarrow> json option" where
  "property (JObject ps) name = map_of ps name"
| "property v name = None"

subsection \<open>Asynchronous functions\<close>

text \<open>
  An \<^verbatim>\<open>async\<close> function is the tree of what it does: it returns or throws, it reads or
  writes the shared world in the segments that run without suspending, and it suspends at
  an \<^verbatim>\<open>await\<close>: on the timer of \<^verbatim>\<open>delay(ms)\<close>, on \<^verbatim>\<open>fetch(request, options)\<close>, which resolves
  with a response or rejects with an error, or on reading a response's body as JSON.
\<close>

datatype 'a task =
    Return 'a
  | Throw error
  | Get "world \<Rightarrow> 'a task"
  | Put "world \<Rightarrow> world" "'a task"
  | Delay int "'a task"
  | Fetch request options "error + response \<Rightarrow> 'a task"
  | ReadJson response "json option \<Rightarrow> 'a task"

text \<open>
  \<^verbatim>\<open>await m\<close> on the promise of another \<^verbatim>\<open>async\<close> function of the class, followed by the rest
  of the caller; an error passes through. The turn of the microtask queue between the
  callee's return and the caller's next statement is not a suspension of its own. No timer
  fires and no answer arrives in it; and of the two awaits of this kind, the last segment
  of \<^verbatim>\<open>isRetryable\<close> reads and writes nothing shared, and what follows \<^verbatim>\<open>waitForThrottle\<close>
  reads only the queue, which no hook writes.
\<close>

primrec bind :: "'a task \<Rightarrow> ('a \<Rightarrow> 'b task) \<Rightarrow> 'b task" where
  "bind (Return a) f = f a"
| "bind (Throw e) f = Throw e"
| "bind (Get k) f = Get (\<lambda>w. bind (k w) f)"
| "bind (Put g t) f = Put g (bind t f)"
| "bind (Delay ms t) f = Delay ms (bind t f)"
| "bind (Fetch rq op k) f = Fetch rq op (\<lambda>r. bind (k r) f)"
| "bind (ReadJson r k) f = ReadJson r (\<lambda>j. bind (k j) f)"

subsection \<open>The class RateLimitManager\<close>

definition getEndpointKey :: "request \<Rightarrow> string" where
  "getEndpointKey req = httpMethod req @ '':'' @ pathname (url req)"

definition getRetryAfterTime :: "response \<Rightarrow> int" where
  "getRetryAfterTime resp =
     (case headers_get (headers resp) ''Retry-After'' of
        None \<Rightarrow> 1
      | Some v \<Rightarrow>
          if v = [] then 1
          else (case parseInt v of Some seconds \<Rightarrow> seconds | None \<Rightarrow> 1))"

definition isRetryable :: "response \<Rightarrow> bool task" where
  "isRetryable resp =
     ReadJson resp (\<lambda>parsed.
       case parsed of
         None \<Rightarrow> Return True
       | Some b \<Rightarrow>
           if typeofObject b \<and> b \<noteq> JNull \<and> property b ''retryable'' \<noteq> None
           then Return (property b ''retryable'' \<noteq> Some (JBool False))
           else Return True)"

text \<open>
  The entry of an endpoint is created once and never replaced or deleted, so the object
  that \<^verbatim>\<open>state\<close> refers to is the entry under the key for as long as the hooks run, and an
  assignment to a field of \<^verbatim>\<open>state\<close> is an update of that entry.
\<close>

definition initState :: "string \<Rightarrow> world \<Rightarrow> world" where
  "initState endpointKey w =
     (if endpointStates w endpointKey = None
      then w\<lparr>endpointStates := (endpointStates w)(endpointKey \<mapsto> defaultState)\<rparr>
      else w)"

definition modState :: "string \<Rightarrow> (EndpointState \<Rightarrow> EndpointState) \<Rightarrow> world \<Rightarrow> world" where
  "modState endpointKey f w =
     (case endpointStates w endpointKey of
        None \<Rightarrow> w
      | Some st \<Rightarrow> w\<lparr>endpointStates := (endpointStates w)(endpointKey \<mapsto> f st)\<rparr>)"

definition clearThrottled :: "string \<Rightarrow> world \<Rightarrow> world" where
  "clearThrottled endpointKey = modState endpointKey (\<lambda>st. st\<lparr>isThrottled := False\<rparr>)"

definition waitForThrottle :: "request \<Rightarrow> unit task" where
  "waitForThrottle req =
     (let endpointKey = getEndpointKey req in
      Put (initState endpointKey)
        (Get (\<lambda>w.
           case endpointStates w endpointKey of
             None \<Rightarrow> Throw (Error ''TypeError'')
           | Some st \<Rightarrow>
               if isThrottled st then
                 (let waitTime = lastRetryTime st + retryAfter st * 1000 - now w in
                  if waitTime > 0
                  then Delay waitTime (Put (clearThrottled endpointKey) (Return ()))
                  else Put (clearThrottled endpointKey) (Return ()))
               else Return ())))"

text \<open>
  The \<^verbatim>\<open>for\<close> loop of \<^verbatim>\<open>handleResponse\<close>, entered with the loop counter, the local
  \<^verbatim>\<open>retryAfter\<close> (here \<open>secs\<close>) and \<^verbatim>\<open>lastResponse\<close>. The \<^verbatim>\<open>catch\<close> clause is the \<open>Inl\<close>
  branch: of what stands in the \<^verbatim>\<open>try\<close> block only \<^verbatim>\<open>fetch\<close> can throw.
\<close>

function retryLoop :: "request \<Rightarrow> string \<Rightarrow> nat \<Rightarrow> int \<Rightarrow> response \<Rightarrow> response task" where
  "retryLoop req endpointKey attempt secs lastResponse =
     (if attempt < maxRetries then
        Delay (secs * 1000)
          (Fetch req [] (\<lambda>outcome.
             case outcome of
               Inl err \<Rightarrow> Put (clearThrottled endpointKey) (Throw err)
             | Inr retryResponse \<Rightarrow>
                 if status retryResponse \<noteq> 429
                 then Put (clearThrottled endpointKey) (Return retryResponse)
                 else bind (isRetryable retryResponse) (\<lambda>shouldRetryAgain.
                   if \<not> shouldRetryAgain
                   then Put (clearThrottled endpointKey) (Return retryResponse)
                   else
                     Put (\<lambda>w. modState endpointKey
                           (\<lambda>st. st\<lparr>retryAfter := getRetryAfterTime retryResponse,
                                     lastRetryTime := now w\<rparr>) w)
                       (retryLoop req endpointKey (Suc attempt)
                          (getRetryAfterTime retryResponse) retryResponse))))
      else Put (clearThrottled endpointKey) (Return lastResponse))"
  by pat_completeness auto
termination
  by (relation "measure (\<lambda>(req, endpointKey, attempt, secs, lastResponse). maxRetries - attempt)")
     auto

text \<open>The variant of the class with the retryability check.\<close>

definition handleResponse :: "request \<Rightarrow> response \<Rightarrow> response task" where
  "handleResponse req resp =
     (if status resp \<noteq> 429 then Return resp
      else bind (isRetryable resp) (\<lambda>shouldRetry.
        if \<not> shouldRetry then Return resp
        else
          (let endpointKey = getEndpointKey req in
           Put (initState endpointKey)
             (Put (\<lambda>w. modState endpointKey
                    (\<lambda>st. st\<lparr>isThrottled := True,
                              retryAfter := getRetryAfterTime resp,
                              lastRetryTime := now w\<rparr>) w)
                (retryLoop req endpointKey 0 (getRetryAfterTime resp) resp)))))"

text \<open>The variant without the retryability check: every 429 is retried.\<close>

function retryLoop_v1 :: "request \<Rightarrow> string \<Rightarrow> nat \<Rightarrow> int \<Rightarrow> response \<Rightarrow> response task" where
  "retryLoop_v1 req endpointKey attempt secs lastResponse =
     (if attempt < maxRetries then
        Delay (secs * 1000)
          (Fetch req [] (\<lambda>outcome.
             case outcome of
               Inl err \<Rightarrow> Put (clearThrottled endpointKey) (Throw err)
             | Inr retryResponse \<Rightarrow>
                 if status retryResponse \<noteq> 429
                 then Put (clearThrottled endpointKey) (Return retryResponse)
                 else
                   Put (\<lambda>w. modState endpointKey
                         (\<lambda>st. st\<lparr>retryAfter := getRetryAfterTime retryResponse,
                                   lastRetryTime := now w\<rparr>) w)
                     (retryLoop_v1 req endpointKey (Suc attempt)
                        (getRetryAfterTime retryResponse) retryResponse)))
      else Put (clearThrottled endpointKey) (Return lastResponse))"
  by pat_completeness auto
termination
  by (relation "measure (\<lambda>(req, endpointKey, attempt, secs, lastResponse). maxRetries - attempt)")
     auto

definition handleResponse_v1 :: "request \<Rightarrow> response \<Rightarrow> response task" where
  "handleResponse_v1 req resp =
     (if status resp \<noteq> 429 then Return resp
      else
        (let endpointKey = getEndpointKey req in
         Put (initState endpointKey)
           (Put (\<lambda>w. modState endpointKey
                  (\<lambda>st. st\<lparr>isThrottled := True,
                            retryAfter := getRetryAfterTime resp,
                            lastRetryTime := now w\<rparr>) w)
              (retryLoop_v1 req endpointKey 0 (getRetryAfterTime resp) resp))))"

definition getQueueSize :: "request \<Rightarrow> world \<Rightarrow> nat" where
  "getQueueSize req w =
     (case endpointStates w (getEndpointKey req) of
        None \<Rightarrow> 0
      | Some st \<Rightarrow> length (queue st))"

definition warnIfQueueTooLarge :: "request \<Rightarrow> world \<Rightarrow> world" where
  "warnIfQueueTooLarge req w =
     (if getQueueSize req w \<ge> maxQueueSize
      then w\<lparr>console := console w @
             [''[RevenueCat API] Rate limit queue for '' @ getEndpointKey req @
              '' has reached maximum size of 100. Consider implementing additional throttling.'']\<rparr>
      else w)"

subsection \<open>The middleware\<close>

text \<open>The two hooks; \<open>None\<close> is \<^verbatim>\<open>undefined\<close>: the request or the response passes as it is.\<close>

definition onRequest :: "request \<Rightarrow> response option task" where
  "onRequest req =
     bind (waitForThrottle req) (\<lambda>u. Put (warnIfQueueTooLarge req) (Return None))"

definition onResponse :: "request \<Rightarrow> response \<Rightarrow> response option task" where
  "onResponse req resp =
     (if status resp = 429
      then bind (handleResponse req resp) (\<lambda>r. Return (Some r))
      else Return None)"

subsection \<open>Running one hook\<close>

text \<open>
  \<^verbatim>\<open>setTimeout(resolve, ms)\<close>, on which \<^verbatim>\<open>delay(ms)\<close> rests, keeps a timeout from \<open>0\<close> to
  \<open>2^31 - 1\<close> milliseconds: the timer does not fire before that time has passed. A timeout
  outside this range is not kept (Node sets it to 1 ms, a browser reads it as a 32-bit
  integer), so that the least time a timer takes is then \<open>0\<close>.
\<close>

definition timerDelay :: "int \<Rightarrow> int" where
  "timerDelay ms = (if 0 \<le> ms \<and> ms \<le> 2147483647 then ms else 0)"

text \<open>
  The environment of a run: what the transport answers to its \<open>n\<close>-th call (counted from
  \<open>0\<close>), and by how many milliseconds the \<open>n\<close>-th suspension overruns the least time it
  takes. The run records the world and what the hook did at each suspension, in order.
\<close>

record env =
  transport :: "nat \<Rightarrow> request \<Rightarrow> options \<Rightarrow> error + response"
  lag :: "nat \<Rightarrow> nat"

datatype event = Slept int | Sent request options | Parsed response

record run =
  rworld :: world
  trace :: "event list"

fun isSent :: "event \<Rightarrow> bool" where
  "isSent (Sent rq op) = True"
| "isSent e = False"

definition sends :: "event list \<Rightarrow> nat" where
  "sends tr = length (filter isSent tr)"

definition suspend :: "env \<Rightarrow> event \<Rightarrow> int \<Rightarrow> run \<Rightarrow> run" where
  "suspend E ev d r =
     \<lparr>rworld = (rworld r)\<lparr>now := now (rworld r) + d + int (lag E (length (trace r)))\<rparr>,
      trace = trace r @ [ev]\<rparr>"

primrec exec :: "env \<Rightarrow> 'a task \<Rightarrow> run \<Rightarrow> (error + 'a) \<times> run" where
  "exec E (Return a) r = (Inr a, r)"
| "exec E (Throw e) r = (Inl e, r)"
| "exec E (Get k) r = exec E (k (rworld r)) r"
| "exec E (Put g t) r = exec E t (r\<lparr>rworld := g (rworld r)\<rparr>)"
| "exec E (Delay ms t) r = exec E t (suspend E (Slept ms) (timerDelay ms) r)"
| "exec E (Fetch rq op k) r =
     exec E (k (transport E (sends (trace r)) rq op)) (suspend E (Sent rq op) 0 r)"
| "exec E (ReadJson resp k) r = exec E (k (body resp)) (suspend E (Parsed resp) 0 r)"

text \<open>The endpoint state of a request in a world, and whether it is throttled there.\<close>

definition stateOf :: "world \<Rightarrow> request \<Rightarrow> EndpointState option" where
  "stateOf w req = endpointStates w (getEndpointKey req)"

definition throttled :: "world \<Rightarrow> request \<Rightarrow> bool" where
  "throttled w req = (case stateOf w req of None \<Rightarrow> False | Some st \<Rightarrow> isThrottled st)"

subsection \<open>The words of the specification\<close>

text \<open>
  A response is marked not retryable when its body parses to a structure whose field
  \<^verbatim>\<open>retryable\<close> is present and is the boolean false.
\<close>

definition markedNotRetryable :: "response \<Rightarrow> bool" where
  "markedNotRetryable resp =
     (case body resp of
        Some (JObject ps) \<Rightarrow> map_of ps ''retryable'' = Some (JBool False)
      | _ \<Rightarrow> False)"

text \<open>The number that a string of decimal digits denotes, by the weight of each place.\<close>

fun decimalOf :: "string \<Rightarrow> int" where
  "decimalOf [] = 0"
| "decimalOf (c # cs) = digitValue c * 10 ^ length cs + decimalOf cs"

text \<open>
  The integer that a header value begins with: after leading white space and one sign,
  the longest run of decimal digits. A value is a decimal integer when it is made of
  decimal digits and nothing else.
\<close>

definition unsignedPart :: "string \<Rightarrow> string" where
  "unsignedPart v =
     (case dropWhile isWhiteSpace v of
        [] \<Rightarrow> []
      | c # r \<Rightarrow> if c = CHR ''+'' \<or> c = CHR ''-'' then r else c # r)"

definition leadingDigits :: "string \<Rightarrow> string" where
  "leadingDigits v = takeWhile isDigit (unsignedPart v)"

definition hasMinus :: "string \<Rightarrow> bool" where
  "hasMinus v = (case dropWhile isWhiteSpace v of [] \<Rightarrow> False | c # r \<Rightarrow> c = CHR ''-'')"

definition isDecimalInteger :: "string \<Rightarrow> bool" where
  "isDecimalInteger v = (v \<noteq> [] \<and> list_all isDigit v)"


subsection \<open>Steps of a run\<close>

text \<open>
  The runs that one pass through the loop of \<^verbatim>\<open>handleResponse\<close> goes through: after the
  wait and the send, after \<^verbatim>\<open>state.isThrottled = false\<close>, after the two assignments that
  record a further 429, and after the three assignments made before the loop.
\<close>

definition cleared :: "string \<Rightarrow> run \<Rightarrow> run" where
  "cleared key r = r\<lparr>rworld := clearThrottled key (rworld r)\<rparr>"

definition recorded :: "string \<Rightarrow> response \<Rightarrow> run \<Rightarrow> run" where
  "recorded key rr r =
     r\<lparr>rworld := modState key
          (\<lambda>st. st\<lparr>retryAfter := getRetryAfterTime rr, lastRetryTime := now (rworld r)\<rparr>)
          (rworld r)\<rparr>"

definition afterSend :: "env \<Rightarrow> request \<Rightarrow> int \<Rightarrow> run \<Rightarrow> run" where
  "afterSend E req secs r =
     suspend E (Sent req []) 0 (suspend E (Slept (secs * 1000)) (timerDelay (secs * 1000)) r)"

text \<open>What a send gave when the loop goes on: a 429 that is not marked not retryable.\<close>

definition retryable429 :: "error + response \<Rightarrow> bool" where
  "retryable429 out =
     (case out of Inl e \<Rightarrow> False | Inr rr \<Rightarrow> status rr = 429 \<and> \<not> markedNotRetryable rr)"

definition started :: "env \<Rightarrow> request \<Rightarrow> response \<Rightarrow> run \<Rightarrow> run" where
  "started E req resp r =
     (let r1 = suspend E (Parsed resp) 0 r in
      r1\<lparr>rworld := modState (getEndpointKey req)
            (\<lambda>st. st\<lparr>isThrottled := True, retryAfter := getRetryAfterTime resp,
                      lastRetryTime := now (rworld r1)\<rparr>)
            (initState (getEndpointKey req) (rworld r1))\<rparr>)"

subsection \<open>Example values\<close>

definition exRequest :: request where
  "exRequest = \<lparr>httpMethod = ''GET'', url = ''https://api.revenuecat.com/v1/subscribers'', payload = None\<rparr>"

definition exLimited :: response where
  "exLimited = \<lparr>status = 429, headers = [(''Retry-After'', ''2'')],
                 body = Some (JObject [(''retryable'', JBool True)])\<rparr>"

definition exRefused :: response where
  "exRefused = \<lparr>status = 429, headers = [(''Retry-After'', ''1'')],
                 body = Some (JObject [(''type'', JString ''rate_limit_error''), (''retryable'', JBool False)])\<rparr>"

definition exSuccess :: response where
  "exSuccess = \<lparr>status = 200, headers = [], body = None\<rparr>"

definition exStart :: run where
  "exStart = \<lparr>rworld = \<lparr>now = 0, endpointStates = Map.empty, console = []\<rparr>, trace = []\<rparr>"

definition envAnswering :: "(error + response) \<Rightarrow> env" where
  "envAnswering out = \<lparr>transport = (\<lambda>n rq op. out), lag = (\<lambda>n. 0)\<rparr>"

definition exElapsed :: run where
  "exElapsed =
     \<lparr>rworld = \<lparr>now = 5000,
                endpointStates = [''GET:/v1/subscribers'' \<mapsto>
                  \<lparr>isThrottled = True, retryAfter = 2, queue = [], lastRetryTime = 1000,
                   processing = False\<rparr>],
                console = []\<rparr>,
      trace = []\<rparr>"

definition exLenient :: response where
  "exLenient = \<lparr>status = 429, headers = [(''Retry-After'', ''2abc'')], body = None\<rparr>"

definition exInvalid :: response where
  "exInvalid = \<lparr>status = 429, headers = [(''Retry-After'', ''invalid'')], body = None\<rparr>"

definition exBare :: response where
  "exBare = \<lparr>status = 429, headers = [], body = None\<rparr>"

definition exPost :: request where
  "exPost = \<lparr>httpMethod = ''POST'', url = ''https://api.revenuecat.com/v1/subscribers?id=3'',
              payload = Some ''{}''\<rparr>"

definition exQuery :: request where
  "exQuery = \<lparr>httpMethod = ''GET'', url = ''https://api.revenuecat.com/v1/subscribers?id=3'',
               payload = Some ''{}''\<rparr>"

definition exThrottled :: EndpointState where
  "exThrottled =
     \<lparr>isThrottled = True, retryAfter = 2, queue = [], lastRetryTime = 0, processing = False\<rparr>"

text \<open>A run in which the entry of one endpoint has been replaced.\<close>

definition withEntry :: "string \<Rightarrow> EndpointState \<Rightarrow> run \<Rightarrow> run" where
  "withEntry endpointKey st r =
     r\<lparr>rworld := (rworld r)\<lparr>endpointStates := (endpointStates (rworld r))(endpointKey \<mapsto> st)\<rparr>\<rparr>"

subsection \<open>Many hooks at once\<close>

text \<open>
  The hooks of all requests run on one thread: a hook runs from one \<^verbatim>\<open>await\<close> to the next
  without interruption, and while it is suspended any other hook may run. A suspended hook
  waits for its timer (with the time at which it is due), for the transport, or for the
  body of a response; or it has finished.
\<close>

datatype 'a pending =
    Sleeping int "'a task"
  | Fetching request options "error + response \<Rightarrow> 'a task"
  | Reading response "json option \<Rightarrow> 'a task"
  | Finished "error + 'a"

text \<open>A task run to its next suspension.\<close>

primrec drive :: "'a task \<Rightarrow> world \<Rightarrow> 'a pending \<times> world" where
  "drive (Return a) w = (Finished (Inr a), w)"
| "drive (Throw e) w = (Finished (Inl e), w)"
| "drive (Get k) w = drive (k w) w"
| "drive (Put g t) w = drive t (g w)"
| "drive (Delay ms t) w = (Sleeping (now w + timerDelay ms) t, w)"
| "drive (Fetch rq op k) w = (Fetching rq op k, w)"
| "drive (ReadJson resp k) w = (Reading resp k, w)"

text \<open>
  The middleware with its hooks in flight. \<open>observed\<close> lists, in order, the bodies that were
  read: the endpoint of the hook that read, the response, and the time.
\<close>

record pool =
  pworld :: world
  hooks :: "(request \<times> response option pending) list"
  observed :: "(string \<times> response \<times> int) list"

inductive step :: "pool \<Rightarrow> pool \<Rightarrow> bool" where
  callOnRequest:
    "drive (onRequest req) (pworld P) = (p, w') \<Longrightarrow>
     step P (P\<lparr>pworld := w', hooks := hooks P @ [(req, p)]\<rparr>)"
| callOnResponse:
    "drive (onResponse req resp) (pworld P) = (p, w') \<Longrightarrow>
     step P (P\<lparr>pworld := w', hooks := hooks P @ [(req, p)]\<rparr>)"
| tick:
    "0 \<le> d \<Longrightarrow> step P (P\<lparr>pworld := (pworld P)\<lparr>now := now (pworld P) + d\<rparr>\<rparr>)"
| wake:
    "i < length (hooks P) \<Longrightarrow> hooks P ! i = (req, Sleeping due t) \<Longrightarrow>
     due \<le> now (pworld P) \<Longrightarrow> drive t (pworld P) = (p, w') \<Longrightarrow>
     step P (P\<lparr>pworld := w', hooks := (hooks P)[i := (req, p)]\<rparr>)"
| settle:
    "i < length (hooks P) \<Longrightarrow> hooks P ! i = (req, Fetching rq op k) \<Longrightarrow>
     drive (k outcome) (pworld P) = (p, w') \<Longrightarrow>
     step P (P\<lparr>pworld := w', hooks := (hooks P)[i := (req, p)]\<rparr>)"
| parsed:
    "i < length (hooks P) \<Longrightarrow> hooks P ! i = (req, Reading resp k) \<Longrightarrow>
     drive (k (body resp)) (pworld P) = (p, w') \<Longrightarrow>
     step P (P\<lparr>pworld := w', hooks := (hooks P)[i := (req, p)],
              observed := observed P @ [(getEndpointKey req, resp, now (pworld P))]\<rparr>)"

text \<open>The states of a middleware from its creation on.\<close>

inductive reachable :: "pool \<Rightarrow> bool" where
  created:
    "reachable \<lparr>pworld = \<lparr>now = t0, endpointStates = Map.empty, console = []\<rparr>,
                hooks = [], observed = []\<rparr>"
| after: "reachable P \<Longrightarrow> step P Q \<Longrightarrow> reachable Q"

text \<open>
  A rate-limit signal is a 429 that is not marked not retryable, once its body has been
  read; the last signal of an endpoint is the last such response observed for its key,
  with the time of the observation.
\<close>

definition isSignal :: "response \<Rightarrow> bool" where
  "isSignal resp = (status resp = 429 \<and> \<not> markedNotRetryable resp)"

definition lastSignal :: "(string \<times> response \<times> int) list \<Rightarrow> string \<Rightarrow> (response \<times> int) option" where
  "lastSignal log endpointKey =
     (case filter (\<lambda>ob. fst ob = endpointKey \<and> isSignal (fst (snd ob))) log of
        [] \<Rightarrow> None
      | obs \<Rightarrow> Some (snd (last obs)))"

text \<open>
  What a segment of a hook may do to the endpoint states: nothing that throttles an
  endpoint or touches the Retry-After time and the time of the signal of a throttled one
  (\<open>benign\<close>), or, for the endpoint of the hook, set these two from a response and the clock
  (\<open>records\<close>). A task is \<open>disciplined\<close> when it records exactly the signals it reads, each
  before it suspends again.
\<close>

definition benign :: "(world \<Rightarrow> world) \<Rightarrow> bool" where
  "benign g =
     (\<forall>w. now (g w) = now w \<and>
        (\<forall>k st'. endpointStates (g w) k = Some st' \<and> isThrottled st' \<longrightarrow>
           (\<exists>st. endpointStates w k = Some st \<and> isThrottled st \<and>
                 retryAfter st = retryAfter st' \<and> lastRetryTime st = lastRetryTime st')))"

definition records :: "string \<Rightarrow> response \<Rightarrow> (world \<Rightarrow> world) \<Rightarrow> bool" where
  "records endpointKey resp g =
     (\<forall>w. now (g w) = now w \<and>
        (\<forall>k st'. endpointStates (g w) k = Some st' \<and> isThrottled st' \<longrightarrow>
           (if k = endpointKey
            then retryAfter st' = getRetryAfterTime resp \<and> lastRetryTime st' = now w
            else (\<exists>st. endpointStates w k = Some st \<and> isThrottled st \<and>
                   retryAfter st = retryAfter st' \<and> lastRetryTime st = lastRetryTime st'))))"

primrec disciplined :: "string \<Rightarrow> 'a task \<Rightarrow> response option \<Rightarrow> bool" where
  "disciplined endpointKey (Return a) pend = (pend = None)"
| "disciplined endpointKey (Throw e) pend = (pend = None)"
| "disciplined endpointKey (Get k) pend = (\<forall>w. disciplined endpointKey (k w) pend)"
| "disciplined endpointKey (Put g t) pend =
     ((benign g \<and> disciplined endpointKey t pend) \<or>
      (\<exists>resp. pend = Some resp \<and> records endpointKey resp g \<and> disciplined endpointKey t None))"
| "disciplined endpointKey (Delay ms t) pend = (pend = None \<and> disciplined endpointKey t None)"
| "disciplined endpointKey (Fetch rq op k) pend =
     (pend = None \<and> (\<forall>out. disciplined endpointKey (k out) None))"
| "disciplined endpointKey (ReadJson resp k) pend =
     (pend = None \<and>
      disciplined endpointKey (k (body resp)) (if isSignal resp then Some resp else None))"

fun okPending :: "string \<Rightarrow> 'a pending \<Rightarrow> bool" where
  "okPending endpointKey (Sleeping due t) = disciplined endpointKey t None"
| "okPending endpointKey (Fetching rq op k) = (\<forall>out. disciplined endpointKey (k out) None)"
| "okPending endpointKey (Reading resp k) =
     disciplined endpointKey (k (body resp)) (if isSignal resp then Some resp else None)"
| "okPending endpointKey (Finished res) = True"

text \<open>
  The states of the endpoints agree with what was observed: every throttled entry holds
  the Retry-After time of the last signal of its endpoint and the time of that signal.
\<close>

definition consistent :: "world \<Rightarrow> (string \<times> response \<times> int) list \<Rightarrow> bool" where
  "consistent w log =
     (\<forall>k st. endpointStates w k = Some st \<and> isThrottled st \<longrightarrow>
        (\<exists>resp t. lastSignal log k = Some (resp, t) \<and>
           retryAfter st = getRetryAfterTime resp \<and> lastRetryTime st = t))"

definition consistentBut :: "string \<Rightarrow> world \<Rightarrow> (string \<times> response \<times> int) list \<Rightarrow> bool" where
  "consistentBut endpointKey w log =
     (\<forall>k st. k \<noteq> endpointKey \<and> endpointStates w k = Some st \<and> isThrottled st \<longrightarrow>
        (\<exists>resp t. lastSignal log k = Some (resp, t) \<and>
           retryAfter st = getRetryAfterTime resp \<and> lastRetryTime st = t))"

definition throttledAt :: "world \<Rightarrow> string \<Rightarrow> bool" where
  "throttledAt w endpointKey =
     (case endpointStates w endpointKey of None \<Rightarrow> False | Some st \<Rightarrow> isThrottled st)"

definition poolInv :: "pool \<Rightarrow> bool" where
  "poolInv P =
     (consistent (pworld P) (observed P) \<and>
      (\<forall>h \<in> set (hooks P). okPending (getEndpointKey (fst h)) (snd h)))"

text \<open>
  The steps as a function: what the scheduler or the environment does next, and the pool
  after it (\<open>None\<close> when that cannot happen in the pool).
\<close>

datatype action =
    CallOnRequest request
  | CallOnResponse request response
  | Tick int
  | Wake nat
  | Settle nat "error + response"
  | ReadBody nat

fun perform :: "action \<Rightarrow> pool \<Rightarrow> pool option" where
  "perform (CallOnRequest req) P =
     (case drive (onRequest req) (pworld P) of
        (p, w') \<Rightarrow> Some (P\<lparr>pworld := w', hooks := hooks P @ [(req, p)]\<rparr>))"
| "perform (CallOnResponse req resp) P =
     (case drive (onResponse req resp) (pworld P) of
        (p, w') \<Rightarrow> Some (P\<lparr>pworld := w', hooks := hooks P @ [(req, p)]\<rparr>))"
| "perform (Tick d) P =
     (if 0 \<le> d then Some (P\<lparr>pworld := (pworld P)\<lparr>now := now (pworld P) + d\<rparr>\<rparr>) else None)"
| "perform (Wake i) P =
     (if i < length (hooks P) then
        (case hooks P ! i of
           (req, Sleeping due t) \<Rightarrow>
             if due \<le> now (pworld P) then
               (case drive t (pworld P) of
                  (p, w') \<Rightarrow> Some (P\<lparr>pworld := w', hooks := (hooks P)[i := (req, p)]\<rparr>))
             else None
         | _ \<Rightarrow> None)
      else None)"
| "perform (Settle i outcome) P =
     (if i < length (hooks P) then
        (case hooks P ! i of
           (req, Fetching rq op k) \<Rightarrow>
             (case drive (k outcome) (pworld P) of
                (p, w') \<Rightarrow> Some (P\<lparr>pworld := w', hooks := (hooks P)[i := (req, p)]\<rparr>))
         | _ \<Rightarrow> None)
      else None)"
| "perform (ReadBody i) P =
     (if i < length (hooks P) then
        (case hooks P ! i of
           (req, Reading resp k) \<Rightarrow>
             (case drive (k (body resp)) (pworld P) of
                (p, w') \<Rightarrow>
                  Some (P\<lparr>pworld := w', hooks := (hooks P)[i := (req, p)],
                          observed := observed P @
                            [(getEndpointKey req, resp, now (pworld P))]\<rparr>))
         | _ \<Rightarrow> None)
      else None)"

text \<open>A list of steps from a pool on; a step that cannot happen is passed over.\<close>

fun performAll :: "action list \<Rightarrow> pool \<Rightarrow> pool" where
  "performAll [] P = P"
| "performAll (a # as) P =
     (case perform a P of None \<Rightarrow> performAll as P | Some Q \<Rightarrow> performAll as Q)"

definition exCreated :: pool where
  "exCreated = \<lparr>pworld = \<lparr>now = 0, endpointStates = Map.empty, console = []\<rparr>,
                 hooks = [], observed = []\<rparr>"

definition exCalled :: pool where
  "exCalled = performAll [CallOnResponse exRequest exLimited] exCreated"

definition exSignalled :: pool where
  "exSignalled = performAll [ReadBody 0] exCalled"

subsection \<open>The variant without the retryability check\<close>

text \<open>The run after the three assignments that \<^verbatim>\<open>handleResponse\<close> of that variant begins with.\<close>

definition started_v1 :: "request \<Rightarrow> response \<Rightarrow> run \<Rightarrow> run" where
  "started_v1 req resp r =
     r\<lparr>rworld := modState (getEndpointKey req)
          (\<lambda>st. st\<lparr>isThrottled := True, retryAfter := getRetryAfterTime resp,
                    lastRetryTime := now (rworld r)\<rparr>)
          (initState (getEndpointKey req) (rworld r))\<rparr>"

declare retryLoop.simps [simp del]
declare retryLoop_v1.simps [simp del]

section \<open>Properties\<close>

subsection \<open>The retry policy\<close>

lemma markedNotRetryable_iff:
  "markedNotRetryable resp \<longleftrightarrow>
     (\<exists>ps. body resp = Some (JObject ps) \<and> map_of ps ''retryable'' = Some (JBool False))"
  by (auto simp: markedNotRetryable_def split: option.splits json.splits)

lemma exec_isRetryable:
  "exec E (isRetryable resp) r = (Inr (\<not> markedNotRetryable resp), suspend E (Parsed resp) 0 r)"
proof (cases "body resp")
  case None
  then show ?thesis by (simp add: isRetryable_def markedNotRetryable_def)
next
  case (Some b)
  then show ?thesis
    by (cases b) (auto simp: isRetryable_def markedNotRetryable_def)
qed

text \<open>
  Claim C4. \<^verbatim>\<open>isRetryable\<close> always resolves, and it resolves to false exactly when the body
  of the response parses to a structure whose field \<^verbatim>\<open>retryable\<close> is present and explicitly
  false. In every other case (the field true or of another type, the field absent, a body
  that is no structure or does not parse) it resolves to true.
\<close>

theorem isRetryable_default_open:
  "fst (exec E (isRetryable resp) r) =
     Inr (\<not> (\<exists>ps. body resp = Some (JObject ps) \<and> map_of ps ''retryable'' = Some (JBool False)))"
  by (simp add: exec_isRetryable markedNotRetryable_iff)

lemma foldl_digits:
  "foldl (\<lambda>acc c. 10 * acc + digitValue c) a ds = a * 10 ^ length ds + decimalOf ds"
  by (induction ds arbitrary: a) (simp_all add: algebra_simps)

lemma digitsValue_decimalOf: "digitsValue ds = decimalOf ds"
  by (simp add: digitsValue_def foldl_digits)

lemma digitValue_nonneg: "isDigit c \<Longrightarrow> 0 \<le> digitValue c"
proof -
  assume "isDigit c"
  then have "(48::nat) \<le> of_char c" by (simp add: isDigit_def less_eq_char_def)
  then have "int 48 \<le> int (of_char c)" by (simp only: of_nat_le_iff)
  then show ?thesis by (simp add: digitValue_def of_nat_of_char)
qed

lemma decimalOf_nonneg: "list_all isDigit ds \<Longrightarrow> 0 \<le> decimalOf ds"
  by (induction ds) (simp_all add: digitValue_nonneg)

lemma takeWhile_all: "list_all P (takeWhile P xs)"
  by (induction xs) simp_all

lemma parseInt_digits:
  assumes "v \<noteq> []" "list_all isDigit v"
  shows "parseInt v = Some (decimalOf v)"
proof -
  obtain c cs where v: "v = c # cs" using assms(1) by (cases v) auto
  have c: "isDigit c" using assms(2) v by simp
  have nws: "\<not> isWhiteSpace c" using c by (auto simp: isDigit_def isWhiteSpace_def)
  have nsign: "c \<noteq> CHR ''+''" "c \<noteq> CHR ''-''" using c by (auto simp: isDigit_def)
  have tw: "takeWhile isDigit v = v" using assms(2) by (simp add: list_all_iff)
  show ?thesis
    using nws nsign tw v by (simp add: parseInt_def digitsValue_decimalOf)
qed

lemma getRetryAfterTime_eq:
  "getRetryAfterTime resp =
     (case headers_get (headers resp) ''Retry-After'' of
        None \<Rightarrow> 1
      | Some v \<Rightarrow> (case parseInt v of None \<Rightarrow> 1 | Some n \<Rightarrow> n))"
  by (auto simp: getRetryAfterTime_def parseInt_def split: option.splits)

lemma parseInt_negative_iff:
  "(\<exists>n. parseInt v = Some n \<and> n < 0) \<longleftrightarrow>
     (case dropWhile isWhiteSpace v of
        [] \<Rightarrow> False
      | c # r \<Rightarrow> c = CHR ''-'' \<and> 0 < decimalOf (takeWhile isDigit r))"
proof (cases "dropWhile isWhiteSpace v")
  case Nil
  then show ?thesis by (simp add: parseInt_def Let_def del: dropWhile_eq_Nil_conv)
next
  case (Cons c r)
  have a: "0 \<le> decimalOf (takeWhile isDigit r)" by (simp add: decimalOf_nonneg takeWhile_all)
  have b: "0 \<le> decimalOf (takeWhile isDigit (c # r))" by (rule decimalOf_nonneg[OF takeWhile_all])
  show ?thesis
  proof (cases "c = CHR ''-''")
    case True
    then show ?thesis using Cons a
      by (cases "takeWhile isDigit r = []") (auto simp: parseInt_def digitsValue_decimalOf Let_def)
  next
    case False
    then show ?thesis using Cons a b
      by (auto simp: parseInt_def digitsValue_decimalOf Let_def simp del: takeWhile.simps)
  qed
qed

text \<open>
  Claim C8, as the code has it. The parsed value is returned as it is: a header value
  \<^verbatim>\<open>0\<close> gives \<open>0\<close>, and the result is negative exactly when the header value is, after
  leading white space, a minus sign followed by digits that denote a number above zero.
\<close>

theorem getRetryAfterTime_sign:
  "(getRetryAfterTime resp < 0 \<longleftrightarrow>
      (\<exists>v. headers_get (headers resp) ''Retry-After'' = Some v \<and>
           (case dropWhile isWhiteSpace v of
              [] \<Rightarrow> False
            | c # r \<Rightarrow> c = CHR ''-'' \<and> 0 < decimalOf (takeWhile isDigit r)))) \<and>
   getRetryAfterTime (resp\<lparr>headers := [(''Retry-After'', ''0'')]\<rparr>) = 0"
proof
  show "getRetryAfterTime resp < 0 \<longleftrightarrow>
      (\<exists>v. headers_get (headers resp) ''Retry-After'' = Some v \<and>
           (case dropWhile isWhiteSpace v of
              [] \<Rightarrow> False
            | c # r \<Rightarrow> c = CHR ''-'' \<and> 0 < decimalOf (takeWhile isDigit r)))"
  proof (cases "headers_get (headers resp) ''Retry-After''")
    case None
    then show ?thesis by (simp add: getRetryAfterTime_eq)
  next
    case (Some v)
    have "getRetryAfterTime resp < 0 \<longleftrightarrow> (\<exists>n. parseInt v = Some n \<and> n < 0)"
      using Some by (simp add: getRetryAfterTime_eq split: option.splits)
    then show ?thesis using Some by (simp add: parseInt_negative_iff)
  qed
  show "getRetryAfterTime (resp\<lparr>headers := [(''Retry-After'', ''0'')]\<rparr>) = 0"
    by (simp add: getRetryAfterTime_def headers_get_def parseInt_def isWhiteSpace_def
        isDigit_def digitsValue_def digitValue_def)
qed

text \<open>
  Claim C8, as the specification states it, fails: for the header value \<^verbatim>\<open>-5\<close> the result
  is negative.
\<close>

theorem getRetryAfterTime_negative_header:
  "getRetryAfterTime \<lparr>status = 429, headers = [(''Retry-After'', ''-5'')], body = None\<rparr> = - 5"
  by (simp add: getRetryAfterTime_def headers_get_def parseInt_def isWhiteSpace_def
      isDigit_def digitsValue_def digitValue_def)

subsection \<open>One hook, run to its end\<close>

lemma exec_bind:
  "exec E (bind t f) r =
     (case exec E t r of (Inl e, r') \<Rightarrow> (Inl e, r') | (Inr a, r') \<Rightarrow> exec E (f a) r')"
  by (induction t arbitrary: r) simp_all

lemma sends_suspend [simp]:
  "sends (trace (suspend E ev d r)) = sends (trace r) + (if isSent ev then 1 else 0)"
  by (simp add: suspend_def sends_def)

lemma sends_snoc [simp]: "sends (tr @ [ev]) = sends tr + (if isSent ev then 1 else 0)"
  by (simp add: sends_def)

lemma trace_put [simp]: "trace (r\<lparr>rworld := w\<rparr>) = trace r"
  by simp

lemma exec_retryLoop_exhausted:
  "\<not> attempt < maxRetries \<Longrightarrow>
   exec E (retryLoop req key attempt secs lastR) r = (Inr lastR, cleared key r)"
  by (simp add: retryLoop.simps cleared_def)

lemma exec_retryLoop_error:
  "attempt < maxRetries \<Longrightarrow> transport E (sends (trace r)) req [] = Inl err \<Longrightarrow>
   exec E (retryLoop req key attempt secs lastR) r = (Inl err, cleared key (afterSend E req secs r))"
  by (simp add: retryLoop.simps cleared_def afterSend_def)

lemma exec_retryLoop_other:
  "attempt < maxRetries \<Longrightarrow> transport E (sends (trace r)) req [] = Inr rr \<Longrightarrow>
   status rr \<noteq> 429 \<Longrightarrow>
   exec E (retryLoop req key attempt secs lastR) r = (Inr rr, cleared key (afterSend E req secs r))"
  by (simp add: retryLoop.simps cleared_def afterSend_def)

lemma exec_retryLoop_stop:
  "attempt < maxRetries \<Longrightarrow> transport E (sends (trace r)) req [] = Inr rr \<Longrightarrow>
   status rr = 429 \<Longrightarrow> markedNotRetryable rr \<Longrightarrow>
   exec E (retryLoop req key attempt secs lastR) r =
     (Inr rr, cleared key (suspend E (Parsed rr) 0 (afterSend E req secs r)))"
  by (simp add: retryLoop.simps cleared_def afterSend_def exec_bind exec_isRetryable)

lemma exec_retryLoop_again:
  "attempt < maxRetries \<Longrightarrow> transport E (sends (trace r)) req [] = Inr rr \<Longrightarrow>
   status rr = 429 \<Longrightarrow> \<not> markedNotRetryable rr \<Longrightarrow>
   exec E (retryLoop req key attempt secs lastR) r =
     exec E (retryLoop req key (Suc attempt) (getRetryAfterTime rr) rr)
       (recorded key rr (suspend E (Parsed rr) 0 (afterSend E req secs r)))"
  by (simp add: retryLoop.simps recorded_def afterSend_def exec_bind exec_isRetryable)

lemma trace_cleared [simp]: "trace (cleared key r) = trace r"
  by (simp add: cleared_def)

lemma trace_recorded [simp]: "trace (recorded key rr r) = trace r"
  by (simp add: recorded_def)

lemma trace_suspend [simp]: "trace (suspend E ev d r) = trace r @ [ev]"
  by (simp add: suspend_def)

lemma trace_afterSend [simp]:
  "trace (afterSend E req secs r) = trace r @ [Slept (secs * 1000), Sent req []]"
  by (simp add: afterSend_def)

lemma now_modState [simp]: "now (modState key f w) = now w"
  by (simp add: modState_def split: option.splits)

lemma now_clearThrottled [simp]: "now (clearThrottled key w) = now w"
  by (simp add: clearThrottled_def)

lemma now_initState [simp]: "now (initState key w) = now w"
  by (simp add: initState_def)

lemma now_cleared [simp]: "now (rworld (cleared key r)) = now (rworld r)"
  by (simp add: cleared_def)

lemma now_recorded [simp]: "now (rworld (recorded key rr r)) = now (rworld r)"
  by (simp add: recorded_def)

lemma now_suspend [simp]:
  "now (rworld (suspend E ev d r)) = now (rworld r) + d + int (lag E (length (trace r)))"
  by (simp add: suspend_def)

lemma timerDelay_nonneg: "0 \<le> timerDelay ms"
  by (simp add: timerDelay_def)

lemma timerDelay_kept: "0 \<le> ms \<Longrightarrow> ms \<le> 2147483647 \<Longrightarrow> timerDelay ms = ms"
  by (simp add: timerDelay_def)


lemma now_afterSend: "now (rworld r) + timerDelay (secs * 1000) \<le> now (rworld (afterSend E req secs r))"
  by (simp add: afterSend_def)

lemma states_suspend [simp]:
  "endpointStates (rworld (suspend E ev d r)) = endpointStates (rworld r)"
  by (simp add: suspend_def)

lemma states_afterSend [simp]:
  "endpointStates (rworld (afterSend E req secs r)) = endpointStates (rworld r)"
  by (simp add: afterSend_def)

lemma present_modState [simp]:
  "(endpointStates (modState key f w) k = None) = (endpointStates w k = None)"
  by (simp add: modState_def split: option.splits)

lemma present_recorded [simp]:
  "(endpointStates (rworld (recorded key rr r)) k = None) = (endpointStates (rworld r) k = None)"
  by (simp add: recorded_def)

lemma throttled_cleared:
  "getEndpointKey req = key \<Longrightarrow> \<not> throttled (rworld (cleared key r)) req"
  by (simp add: throttled_def stateOf_def cleared_def clearThrottled_def modState_def
      split: option.splits)

lemma present_cleared [simp]:
  "(endpointStates (rworld (cleared key r)) k = None) = (endpointStates (rworld r) k = None)"
  by (simp add: cleared_def clearThrottled_def)

lemma retryLoop_advance:
  assumes "attempt + i \<le> maxRetries"
    and "\<forall>j<i. retryable429 (transport E (sends (trace r) + j) req [])"
  shows "\<exists>secs' last' r'.
           exec E (retryLoop req key attempt secs lastR) r =
             exec E (retryLoop req key (attempt + i) secs' last') r' \<and>
           filter isSent (trace r') = filter isSent (trace r) @ replicate i (Sent req []) \<and>
           now (rworld r) + (if i = 0 then 0 else timerDelay (secs * 1000)) \<le> now (rworld r') \<and>
           ((endpointStates (rworld r') key = None) = (endpointStates (rworld r) key = None)) \<and>
           (if i = 0 then last' = lastR \<and> secs' = secs \<and> r' = r
            else transport E (sends (trace r) + (i - 1)) req [] = Inr last')"
  using assms
proof (induction i arbitrary: attempt secs lastR r)
  case 0
  show ?case
    by (rule exI[of _ secs], rule exI[of _ lastR], rule exI[of _ r]) simp
next
  case (Suc i)
  from Suc.prems(2) have "retryable429 (transport E (sends (trace r) + 0) req [])" by blast
  then obtain rr where rr: "transport E (sends (trace r)) req [] = Inr rr"
      "status rr = 429" "\<not> markedNotRetryable rr"
    by (auto simp: retryable429_def split: sum.splits)
  have lt: "attempt < maxRetries" using Suc.prems(1) by simp
  define r1 where "r1 = recorded key rr (suspend E (Parsed rr) 0 (afterSend E req secs r))"
  have step: "exec E (retryLoop req key attempt secs lastR) r =
      exec E (retryLoop req key (Suc attempt) (getRetryAfterTime rr) rr) r1"
    unfolding r1_def by (rule exec_retryLoop_again[OF lt rr])
  have s1: "sends (trace r1) = Suc (sends (trace r))"
    by (simp add: r1_def sends_def)
  have f1: "filter isSent (trace r1) = filter isSent (trace r) @ [Sent req []]"
    by (simp add: r1_def)
  have n1: "now (rworld r) + timerDelay (secs * 1000) \<le> now (rworld r1)"
    using now_afterSend[of r secs E req] by (simp add: r1_def)
  have p1: "(endpointStates (rworld r1) key = None) = (endpointStates (rworld r) key = None)"
    by (simp add: r1_def)
  have le: "Suc attempt + i \<le> maxRetries" using Suc.prems(1) by simp
  have all: "\<forall>j<i. retryable429 (transport E (sends (trace r1) + j) req [])"
  proof (intro allI impI)
    fix j assume "j < i"
    then have "Suc j < Suc i" by simp
    with Suc.prems(2) have "retryable429 (transport E (sends (trace r) + Suc j) req [])" by blast
    then show "retryable429 (transport E (sends (trace r1) + j) req [])" by (simp add: s1)
  qed
  from Suc.IH[OF le all, of "getRetryAfterTime rr" rr]
  obtain secs' last' r' where ih:
    "exec E (retryLoop req key (Suc attempt) (getRetryAfterTime rr) rr) r1 =
       exec E (retryLoop req key (Suc attempt + i) secs' last') r' \<and>
     filter isSent (trace r') = filter isSent (trace r1) @ replicate i (Sent req []) \<and>
     now (rworld r1) + (if i = 0 then 0 else timerDelay (getRetryAfterTime rr * 1000)) \<le> now (rworld r') \<and>
     ((endpointStates (rworld r') key = None) = (endpointStates (rworld r1) key = None)) \<and>
     (if i = 0 then last' = rr \<and> secs' = getRetryAfterTime rr \<and> r' = r1
      else transport E (sends (trace r1) + (i - 1)) req [] = Inr last')"
    by (elim exE) (rule that, assumption)
  note ih1 = ih[THEN conjunct1]
  note ih2 = ih[THEN conjunct2, THEN conjunct1]
  note ih3 = ih[THEN conjunct2, THEN conjunct2, THEN conjunct1]
  note ih4 = ih[THEN conjunct2, THEN conjunct2, THEN conjunct2, THEN conjunct1]
  note ih5 = ih[THEN conjunct2, THEN conjunct2, THEN conjunct2, THEN conjunct2]
  have a: "exec E (retryLoop req key attempt secs lastR) r =
      exec E (retryLoop req key (attempt + Suc i) secs' last') r'"
    using step ih1 by simp
  have b: "filter isSent (trace r') = filter isSent (trace r) @ replicate (Suc i) (Sent req [])"
    using ih2 f1 by (simp add: replicate_app_Cons_same)
  have c: "now (rworld r) + timerDelay (secs * 1000) \<le> now (rworld r')"
    using ih3 n1 timerDelay_nonneg[of "getRetryAfterTime rr * 1000"] by (simp split: if_splits)
  have d: "(endpointStates (rworld r') key = None) = (endpointStates (rworld r) key = None)"
    using ih4 p1 by simp
  have e: "transport E (sends (trace r) + i) req [] = Inr last'"
  proof (cases "i = 0")
    case True
    then show ?thesis using ih5 rr(1) by simp
  next
    case False
    then show ?thesis using ih5 s1 by simp
  qed
  show ?case
    apply (rule exI[of _ secs'], rule exI[of _ last'], rule exI[of _ r'])
    using a b c d e by simp
qed

lemma exec_handleResponse_retryable:
  "status resp = 429 \<Longrightarrow> \<not> markedNotRetryable resp \<Longrightarrow>
   exec E (handleResponse req resp) r =
     exec E (retryLoop req (getEndpointKey req) 0 (getRetryAfterTime resp) resp)
       (started E req resp r)"
  by (simp add: handleResponse_def exec_bind exec_isRetryable started_def Let_def)

lemma exec_handleResponse_marked:
  "status resp = 429 \<Longrightarrow> markedNotRetryable resp \<Longrightarrow>
   exec E (handleResponse req resp) r = (Inr resp, suspend E (Parsed resp) 0 r)"
  by (simp add: handleResponse_def exec_bind exec_isRetryable)

lemma trace_started [simp]: "trace (started E req resp r) = trace r @ [Parsed resp]"
  by (simp add: started_def Let_def)

lemma now_started: "now (rworld r) \<le> now (rworld (started E req resp r))"
  by (simp add: started_def Let_def)

lemma present_started: "endpointStates (rworld (started E req resp r)) (getEndpointKey req) \<noteq> None"
  by (simp add: started_def Let_def initState_def)

lemma sends_started [simp]: "sends (trace (started E req resp r)) = sends (trace r)"
  by (simp add: sends_def)

lemma stateOf_cleared:
  "endpointStates (rworld r) (getEndpointKey req) \<noteq> None \<Longrightarrow>
   \<exists>st. stateOf (rworld (cleared (getEndpointKey req) r)) req = Some st \<and> \<not> isThrottled st"
  by (auto simp: stateOf_def cleared_def clearThrottled_def modState_def split: option.splits)

lemma retryLoop_bounds:
  "maxRetries - attempt = k \<Longrightarrow>
   (case exec E (retryLoop req key attempt secs lastR) r of
      (res, r') \<Rightarrow>
        sends (trace r') \<le> sends (trace r) + k \<and>
        (\<forall>e. res = Inl e \<longrightarrow> (\<exists>n. transport E n req [] = Inl e)))"
proof (induction k arbitrary: attempt secs lastR r)
  case 0
  then have "\<not> attempt < maxRetries" by simp
  then show ?case by (simp add: exec_retryLoop_exhausted)
next
  case (Suc k)
  then have lt: "attempt < maxRetries" by simp
  have k: "maxRetries - Suc attempt = k" using Suc.prems by simp
  show ?case
  proof (cases "transport E (sends (trace r)) req []")
    case (Inl err)
    show ?thesis
      using exec_retryLoop_error[OF lt Inl, of key secs lastR] Inl
      by (auto simp: sends_def)
  next
    case (Inr rr)
    show ?thesis
    proof (cases "status rr = 429")
      case False
      then show ?thesis
        using exec_retryLoop_other[OF lt Inr, of key secs lastR] by (simp add: sends_def)
    next
      case True
      show ?thesis
      proof (cases "markedNotRetryable rr")
        case True
        then show ?thesis
          using exec_retryLoop_stop[OF lt Inr \<open>status rr = 429\<close>, of key secs lastR]
          by (simp add: sends_def)
      next
        case False
        define r1 where "r1 = recorded key rr (suspend E (Parsed rr) 0 (afterSend E req secs r))"
        have s1: "sends (trace r1) = Suc (sends (trace r))" by (simp add: r1_def sends_def)
        have "exec E (retryLoop req key attempt secs lastR) r =
            exec E (retryLoop req key (Suc attempt) (getRetryAfterTime rr) rr) r1"
          unfolding r1_def by (rule exec_retryLoop_again[OF lt Inr True False])
        moreover have "case exec E (retryLoop req key (Suc attempt) (getRetryAfterTime rr) rr) r1 of
            (res, r') \<Rightarrow>
              sends (trace r') \<le> sends (trace r1) + k \<and>
              (\<forall>e. res = Inl e \<longrightarrow> (\<exists>n. transport E n req [] = Inl e))"
          by (rule Suc.IH[OF k])
        ultimately show ?thesis
          using s1 by (auto split: prod.splits)
      qed
    qed
  qed
qed

lemma handleResponse_advance:
  assumes "status resp = 429" and "\<not> markedNotRetryable resp"
    and "i \<le> maxRetries"
    and "\<forall>j<i. retryable429 (transport E (sends (trace r) + j) req [])"
  shows "\<exists>secs' last' r1.
           exec E (handleResponse req resp) r =
             exec E (retryLoop req (getEndpointKey req) i secs' last') r1 \<and>
           filter isSent (trace r1) = filter isSent (trace r) @ replicate i (Sent req []) \<and>
           now (rworld r) + (if i = 0 then 0 else timerDelay (getRetryAfterTime resp * 1000))
             \<le> now (rworld r1) \<and>
           endpointStates (rworld r1) (getEndpointKey req) \<noteq> None \<and>
           (if i = 0 then last' = resp \<and> secs' = getRetryAfterTime resp \<and>
              r1 = started E req resp r
            else transport E (sends (trace r) + (i - 1)) req [] = Inr last')"
proof -
  define key where "key = getEndpointKey req"
  define r0 where "r0 = started E req resp r"
  have le: "0 + i \<le> maxRetries" using assms(3) by simp
  have all: "\<forall>j<i. retryable429 (transport E (sends (trace r0) + j) req [])"
    using assms(4) by (simp add: r0_def)
  from retryLoop_advance[OF le all, of key "getRetryAfterTime resp" resp]
  obtain secs' last' r1 where adv:
    "exec E (retryLoop req key 0 (getRetryAfterTime resp) resp) r0 =
       exec E (retryLoop req key (0 + i) secs' last') r1 \<and>
     filter isSent (trace r1) = filter isSent (trace r0) @ replicate i (Sent req []) \<and>
     now (rworld r0) + (if i = 0 then 0 else timerDelay (getRetryAfterTime resp * 1000)) \<le> now (rworld r1) \<and>
     ((endpointStates (rworld r1) key = None) = (endpointStates (rworld r0) key = None)) \<and>
     (if i = 0 then last' = resp \<and> secs' = getRetryAfterTime resp \<and> r1 = r0
      else transport E (sends (trace r0) + (i - 1)) req [] = Inr last')"
    by (elim exE) (rule that, assumption)
  note adv1 = adv[THEN conjunct1]
  note adv2 = adv[THEN conjunct2, THEN conjunct1]
  note adv3 = adv[THEN conjunct2, THEN conjunct2, THEN conjunct1]
  note adv4 = adv[THEN conjunct2, THEN conjunct2, THEN conjunct2, THEN conjunct1]
  note adv5 = adv[THEN conjunct2, THEN conjunct2, THEN conjunct2, THEN conjunct2]
  have a: "exec E (handleResponse req resp) r = exec E (retryLoop req (getEndpointKey req) i secs' last') r1"
    using exec_handleResponse_retryable[OF assms(1,2), of E req r] adv1
    by (simp add: key_def r0_def)
  have b: "filter isSent (trace r1) = filter isSent (trace r) @ replicate i (Sent req [])"
    using adv2 by (simp add: r0_def)
  have t0: "now (rworld r) \<le> now (rworld r0)" unfolding r0_def by (rule now_started)
  have c: "now (rworld r) + (if i = 0 then 0 else timerDelay (getRetryAfterTime resp * 1000)) \<le> now (rworld r1)"
    using adv3 t0 by (simp split: if_splits)
  have d: "endpointStates (rworld r1) (getEndpointKey req) \<noteq> None"
    using adv4 present_started[of E req resp r] by (simp add: key_def r0_def)
  have e: "if i = 0 then last' = resp \<and> secs' = getRetryAfterTime resp \<and> r1 = started E req resp r
            else transport E (sends (trace r) + (i - 1)) req [] = Inr last'"
    using adv5 by (simp add: r0_def split: if_splits)
  show ?thesis
    apply (rule exI[of _ secs'], rule exI[of _ last'], rule exI[of _ r1])
    using a b c d e by simp
qed


lemma exLimited_retryable: "status exLimited = 429 \<and> \<not> markedNotRetryable exLimited"
  by (simp add: exLimited_def markedNotRetryable_def)

lemma exLimited_secs: "getRetryAfterTime exLimited = 2"
  by (simp add: exLimited_def getRetryAfterTime_def headers_get_def toLower_def parseInt_def
      isWhiteSpace_def isDigit_def digitsValue_def digitValue_def)


text \<open>
  In the variant with the retryability check, a 429 whose body marks it not retryable
  comes back from \<^verbatim>\<open>handleResponse\<close> as it is: the hook has read the body and done nothing
  else (no wait, no send), and the map of endpoint states is the one it found.
  \<^verbatim>\<open>onResponse\<close> hands that response on.
\<close>

lemma handleResponse_not_retryable:
  assumes "status resp = 429" and "markedNotRetryable resp"
  shows "case exec E (handleResponse req resp) r of
           (result, r') \<Rightarrow>
             result = Inr resp \<and>
             trace r' = trace r @ [Parsed resp] \<and>
             endpointStates (rworld r') = endpointStates (rworld r) \<and>
             fst (exec E (onResponse req resp) r) = Inr (Some resp)"
  using assms
  by (simp add: exec_handleResponse_marked onResponse_def exec_bind)

lemma exRefused_marked: "status exRefused = 429 \<and> markedNotRetryable exRefused"
  by (simp add: exRefused_def markedNotRetryable_def)

lemma handleResponse_not_retryable_example:
  "(case exec (envAnswering (Inr exSuccess)) (handleResponse exRequest exRefused) exStart of
      (result, r') \<Rightarrow>
        result = Inr exRefused \<and>
        trace r' = [Parsed exRefused] \<and>
        endpointStates (rworld r') = Map.empty)"
  using handleResponse_not_retryable
    [where resp = exRefused and E = "envAnswering (Inr exSuccess)" and req = exRequest
       and r = exStart]
  by (auto simp: exRefused_marked exStart_def split: prod.splits)



text \<open>
  Claim C2. Whatever the transport answers, one call of \<^verbatim>\<open>handleResponse\<close> calls it at most
  three times, and the call ends with an error only if the transport gave that error. When
  the response is a retryable 429 and three retried sends give a retryable 429 again, the
  call returns the last of them as a value, with the endpoint's \<^verbatim>\<open>isThrottled\<close> false and
  exactly three sends made.
\<close>

theorem handleResponse_retry_ceiling:
  "sends (trace (snd (exec E (handleResponse req resp) r))) \<le> sends (trace r) + 3 \<and>
   (\<forall>e. fst (exec E (handleResponse req resp) r) = Inl e \<longrightarrow>
        (\<exists>n. transport E n req [] = Inl e)) \<and>
   (status resp = 429 \<and> \<not> markedNotRetryable resp \<and>
    (\<forall>j<maxRetries. retryable429 (transport E (sends (trace r) + j) req [])) \<longrightarrow>
    (case exec E (handleResponse req resp) r of
       (result, r') \<Rightarrow>
         result = transport E (sends (trace r) + 2) req [] \<and>
         (\<exists>lastResponse. result = Inr lastResponse \<and> status lastResponse = 429) \<and>
         (\<exists>st. stateOf (rworld r') req = Some st \<and> \<not> isThrottled st) \<and>
         filter isSent (trace r') = filter isSent (trace r) @ replicate 3 (Sent req []) \<and>
         (\<exists>lastResponse. fst (exec E (onResponse req resp) r) = Inr (Some lastResponse) \<and>
            result = Inr lastResponse)))"
proof (intro conjI impI)
  show "sends (trace (snd (exec E (handleResponse req resp) r))) \<le> sends (trace r) + 3"
  proof (cases "status resp = 429 \<and> \<not> markedNotRetryable resp")
    case True
    have "case exec E (retryLoop req (getEndpointKey req) 0 (getRetryAfterTime resp) resp)
                 (started E req resp r) of
            (res, r') \<Rightarrow>
              sends (trace r') \<le> sends (trace (started E req resp r)) + 3 \<and>
              (\<forall>e. res = Inl e \<longrightarrow> (\<exists>n. transport E n req [] = Inl e))"
      by (rule retryLoop_bounds) (simp add: maxRetries_def)
    then show ?thesis
      using True by (simp add: exec_handleResponse_retryable split: prod.splits)
  next
    case False
    show ?thesis
    proof (cases "status resp = 429")
      case True
      then show ?thesis using False by (simp add: exec_handleResponse_marked)
    next
      case False
      then show ?thesis by (simp add: handleResponse_def)
    qed
  qed
  show "\<forall>e. fst (exec E (handleResponse req resp) r) = Inl e \<longrightarrow>
        (\<exists>n. transport E n req [] = Inl e)"
  proof (cases "status resp = 429 \<and> \<not> markedNotRetryable resp")
    case True
    have "case exec E (retryLoop req (getEndpointKey req) 0 (getRetryAfterTime resp) resp)
                 (started E req resp r) of
            (res, r') \<Rightarrow>
              sends (trace r') \<le> sends (trace (started E req resp r)) + 3 \<and>
              (\<forall>e. res = Inl e \<longrightarrow> (\<exists>n. transport E n req [] = Inl e))"
      by (rule retryLoop_bounds) (simp add: maxRetries_def)
    then show ?thesis
      using True by (simp add: exec_handleResponse_retryable split: prod.splits)
  next
    case False
    show ?thesis
    proof (cases "status resp = 429")
      case True
      then show ?thesis using False by (simp add: exec_handleResponse_marked)
    next
      case False
      then show ?thesis by (simp add: handleResponse_def)
    qed
  qed
next
  assume h: "status resp = 429 \<and> \<not> markedNotRetryable resp \<and>
    (\<forall>j<maxRetries. retryable429 (transport E (sends (trace r) + j) req []))"
  then have h1: "status resp = 429" and h2: "\<not> markedNotRetryable resp"
    and h3: "\<forall>j<maxRetries. retryable429 (transport E (sends (trace r) + j) req [])"
    by simp_all
  have le: "maxRetries \<le> maxRetries" by simp
  from handleResponse_advance[OF h1 h2 le h3]
  obtain secs' last' r1 where adv:
    "exec E (handleResponse req resp) r =
       exec E (retryLoop req (getEndpointKey req) maxRetries secs' last') r1 \<and>
     filter isSent (trace r1) = filter isSent (trace r) @ replicate maxRetries (Sent req []) \<and>
     now (rworld r) + (if maxRetries = 0 then 0 else timerDelay (getRetryAfterTime resp * 1000))
       \<le> now (rworld r1) \<and>
     endpointStates (rworld r1) (getEndpointKey req) \<noteq> None \<and>
     (if maxRetries = 0 then last' = resp \<and> secs' = getRetryAfterTime resp \<and> r1 = started E req resp r
      else transport E (sends (trace r) + (maxRetries - 1)) req [] = Inr last')"
    by (elim exE) (rule that, assumption)
  note adv1 = adv[THEN conjunct1]
  note adv2 = adv[THEN conjunct2, THEN conjunct1]
  note adv4 = adv[THEN conjunct2, THEN conjunct2, THEN conjunct2, THEN conjunct1]
  note adv5 = adv[THEN conjunct2, THEN conjunct2, THEN conjunct2, THEN conjunct2]
  have ex: "exec E (handleResponse req resp) r = (Inr last', cleared (getEndpointKey req) r1)"
    using adv1 by (simp add: exec_retryLoop_exhausted)
  have l: "transport E (sends (trace r) + 2) req [] = Inr last'"
    using adv5 by (simp add: maxRetries_def)
  have "(2::nat) < maxRetries" by (simp add: maxRetries_def)
  with h3 have "retryable429 (transport E (sends (trace r) + 2) req [])" by blast
  then have s429: "status last' = 429" using l by (simp add: retryable429_def)
  have st: "\<exists>st. stateOf (rworld (cleared (getEndpointKey req) r1)) req = Some st \<and> \<not> isThrottled st"
    by (rule stateOf_cleared[OF adv4])
  have fs: "filter isSent (trace (cleared (getEndpointKey req) r1)) =
      filter isSent (trace r) @ replicate 3 (Sent req [])"
    using adv2 by (simp add: maxRetries_def)
  have onr: "fst (exec E (onResponse req resp) r) = Inr (Some last')"
    using ex h1 by (simp add: onResponse_def exec_bind)
  show "case exec E (handleResponse req resp) r of
       (result, r') \<Rightarrow>
         result = transport E (sends (trace r) + 2) req [] \<and>
         (\<exists>lastResponse. result = Inr lastResponse \<and> status lastResponse = 429) \<and>
         (\<exists>st. stateOf (rworld r') req = Some st \<and> \<not> isThrottled st) \<and>
         filter isSent (trace r') = filter isSent (trace r) @ replicate 3 (Sent req []) \<and>
         (\<exists>lastResponse. fst (exec E (onResponse req resp) r) = Inr (Some lastResponse) \<and>
            result = Inr lastResponse)"
    using ex l s429 st fs onr by simp
qed

lemma exLimited_fails:
  "fst (exec (envAnswering (Inl (Error ''Network error''))) (handleResponse exRequest exLimited)
          exStart) = Inl (Error ''Network error'')"
proof -
  have lt: "0 < maxRetries" by (simp add: maxRetries_def)
  have t: "transport (envAnswering (Inl (Error ''Network error'')))
       (sends (trace (started (envAnswering (Inl (Error ''Network error''))) exRequest exLimited
          exStart))) exRequest [] = Inl (Error ''Network error'')"
    by (simp add: envAnswering_def)
  show ?thesis
    using exec_retryLoop_error[OF lt t, of "getEndpointKey exRequest"
        "getRetryAfterTime exLimited" exLimited] exLimited_retryable
    by (simp add: exec_handleResponse_retryable)
qed

theorem handleResponse_retry_ceiling_witness:
  "(case exec (envAnswering (Inr exLimited)) (handleResponse exRequest exLimited) exStart of
      (result, r') \<Rightarrow>
        result = Inr exLimited \<and>
        \<not> throttled (rworld r') exRequest \<and>
        sends (trace r') \<le> 3 \<and>
        filter isSent (trace r') = [Sent exRequest [], Sent exRequest [], Sent exRequest []]) \<and>
   (\<exists>n. transport (envAnswering (Inl (Error ''Network error''))) n exRequest [] =
        Inl (Error ''Network error''))"
proof -
  note ok = handleResponse_retry_ceiling
    [where E = "envAnswering (Inr exLimited)" and req = exRequest and resp = exLimited
       and r = exStart]
  note failing = handleResponse_retry_ceiling
    [where E = "envAnswering (Inl (Error ''Network error''))" and req = exRequest
       and resp = exLimited and r = exStart]
  have hyp: "status exLimited = 429 \<and> \<not> markedNotRetryable exLimited \<and>
      (\<forall>j<maxRetries. retryable429
         (transport (envAnswering (Inr exLimited)) (sends (trace exStart) + j) exRequest []))"
    by (simp add: exLimited_retryable retryable429_def envAnswering_def)
  have bound: "sends (trace (snd (exec (envAnswering (Inr exLimited))
      (handleResponse exRequest exLimited) exStart))) \<le> 3"
    using ok[THEN conjunct1] by (simp add: exStart_def sends_def)
  have last3: "case exec (envAnswering (Inr exLimited)) (handleResponse exRequest exLimited) exStart of
       (result, r') \<Rightarrow>
         result = transport (envAnswering (Inr exLimited)) (sends (trace exStart) + 2) exRequest [] \<and>
         (\<exists>lastResponse. result = Inr lastResponse \<and> status lastResponse = 429) \<and>
         (\<exists>st. stateOf (rworld r') exRequest = Some st \<and> \<not> isThrottled st) \<and>
         filter isSent (trace r') = filter isSent (trace exStart) @ replicate 3 (Sent exRequest []) \<and>
         (\<exists>lastResponse. fst (exec (envAnswering (Inr exLimited))
              (onResponse exRequest exLimited) exStart) = Inr (Some lastResponse) \<and>
            result = Inr lastResponse)"
    by (rule ok[THEN conjunct2, THEN conjunct2, THEN mp, OF hyp])
  have err: "\<exists>n. transport (envAnswering (Inl (Error ''Network error''))) n exRequest [] =
        Inl (Error ''Network error'')"
    using failing[THEN conjunct2, THEN conjunct1] exLimited_fails by blast
  have first: "case exec (envAnswering (Inr exLimited)) (handleResponse exRequest exLimited) exStart of
      (result, r') \<Rightarrow>
        result = Inr exLimited \<and>
        \<not> throttled (rworld r') exRequest \<and>
        sends (trace r') \<le> 3 \<and>
        filter isSent (trace r') = [Sent exRequest [], Sent exRequest [], Sent exRequest []]"
    using last3 bound
    by (auto simp: envAnswering_def exStart_def throttled_def numeral_3_eq_3 split: prod.splits)
  show ?thesis using first err by simp
qed

lemma exec_waitForThrottle:
  "exec E (waitForThrottle req) r =
     (let key = getEndpointKey req; r1 = r\<lparr>rworld := initState key (rworld r)\<rparr> in
      case endpointStates (rworld r1) key of
        None \<Rightarrow> (Inl (Error ''TypeError''), r1)
      | Some st \<Rightarrow>
          if isThrottled st then
            (let waitTime = lastRetryTime st + retryAfter st * 1000 - now (rworld r) in
             if waitTime > 0
             then (Inr (), cleared key (suspend E (Slept waitTime) (timerDelay waitTime) r1))
             else (Inr (), cleared key r1))
          else (Inr (), r1))"
  by (simp add: waitForThrottle_def Let_def cleared_def split: option.splits)

lemma initState_present: "endpointStates (initState key w) key \<noteq> None"
  by (simp add: initState_def)

lemma initState_same:
  "endpointStates w key = Some st \<Longrightarrow> initState key w = w"
  by (simp add: initState_def)

lemma initState_absent:
  "endpointStates w key = None \<Longrightarrow>
   endpointStates (initState key w) = (endpointStates w)(key \<mapsto> defaultState)"
  by (simp add: initState_def)

lemma waitForThrottle_returns:
  "\<exists>r'. exec E (waitForThrottle req) r = (Inr (), r') \<and>
        (\<exists>st. stateOf (rworld r') req = Some st \<and> \<not> isThrottled st)"
proof (cases "endpointStates (rworld r) (getEndpointKey req)")
  case None
  then show ?thesis
    by (simp add: exec_waitForThrottle Let_def initState_def defaultState_def stateOf_def)
next
  case (Some st)
  then show ?thesis
    by (auto simp add: exec_waitForThrottle Let_def initState_def stateOf_def cleared_def
        clearThrottled_def modState_def suspend_def)
qed

lemma exec_onRequest:
  "exec E (onRequest req) r =
     (case exec E (waitForThrottle req) r of
        (Inl e, r') \<Rightarrow> (Inl e, r')
      | (Inr u, r') \<Rightarrow> (Inr None, r'\<lparr>rworld := warnIfQueueTooLarge req (rworld r')\<rparr>))"
  by (simp add: onRequest_def exec_bind split: prod.splits sum.splits)

lemma warn_states [simp]: "endpointStates (warnIfQueueTooLarge req w) = endpointStates w"
  by (simp add: warnIfQueueTooLarge_def)

lemma warn_now [simp]: "now (warnIfQueueTooLarge req w) = now w"
  by (simp add: warnIfQueueTooLarge_def)

lemma waitForThrottle_no_delay:
  assumes "\<forall>st. stateOf (rworld r) req = Some st \<and> isThrottled st \<longrightarrow>
             lastRetryTime st + retryAfter st * 1000 - now (rworld r) \<le> 0"
  shows "\<exists>r'. exec E (waitForThrottle req) r = (Inr (), r') \<and>
          trace r' = trace r \<and> now (rworld r') = now (rworld r) \<and>
          (\<exists>st. stateOf (rworld r') req = Some st \<and> \<not> isThrottled st)"
proof (cases "endpointStates (rworld r) (getEndpointKey req)")
  case None
  then show ?thesis
    by (simp add: exec_waitForThrottle Let_def initState_def defaultState_def stateOf_def)
next
  case (Some st)
  show ?thesis
  proof (cases "isThrottled st")
    case True
    then have "lastRetryTime st + retryAfter st * 1000 - now (rworld r) \<le> 0"
      using assms Some by (simp add: stateOf_def)
    then show ?thesis using Some True
      by (simp add: exec_waitForThrottle Let_def initState_def stateOf_def cleared_def
          clearThrottled_def modState_def)
  next
    case False
    then show ?thesis using Some
      by (simp add: exec_waitForThrottle Let_def initState_def stateOf_def)
  qed
qed

text \<open>
  Claim C9. When the endpoint of a request has no entry, or its entry is not throttled, or
  the entry is throttled and the time that remains of its window is zero or less, the
  pre-send hook suspends nowhere: no event is added to the run and the clock stands where
  it stood; \<^verbatim>\<open>waitForThrottle\<close> returns and \<^verbatim>\<open>onRequest\<close> gives \<^verbatim>\<open>undefined\<close>. The endpoint's
  \<^verbatim>\<open>isThrottled\<close> is false afterwards, and a second call right after the first suspends
  nowhere either. The flag is false after every call of the hook, also after one that had
  to wait.
\<close>

theorem onRequest_no_delay:
  "((\<forall>st. stateOf (rworld r) req = Some st \<and> isThrottled st \<longrightarrow>
          lastRetryTime st + retryAfter st * 1000 - now (rworld r) \<le> 0) \<longrightarrow>
    (case exec E (onRequest req) r of
       (result, r') \<Rightarrow>
         result = Inr None \<and> fst (exec E (waitForThrottle req) r) = Inr () \<and>
         trace r' = trace r \<and> now (rworld r') = now (rworld r) \<and>
         (\<exists>st. stateOf (rworld r') req = Some st \<and> \<not> isThrottled st) \<and>
         (case exec E (onRequest req) r' of
            (result', r'') \<Rightarrow>
              result' = Inr None \<and> trace r'' = trace r' \<and>
              now (rworld r'') = now (rworld r') \<and>
              (\<exists>st. stateOf (rworld r'') req = Some st \<and> \<not> isThrottled st)))) \<and>
   (\<exists>st. stateOf (rworld (snd (exec E (onRequest req) r))) req = Some st \<and> \<not> isThrottled st)"
proof (intro conjI impI)
  assume h: "\<forall>st. stateOf (rworld r) req = Some st \<and> isThrottled st \<longrightarrow>
          lastRetryTime st + retryAfter st * 1000 - now (rworld r) \<le> 0"
  from waitForThrottle_no_delay[OF h, of E]
  obtain r1 where r1: "exec E (waitForThrottle req) r = (Inr (), r1)"
    "trace r1 = trace r" "now (rworld r1) = now (rworld r)"
    "\<exists>st. stateOf (rworld r1) req = Some st \<and> \<not> isThrottled st"
    by blast
  define r' where "r' = r1\<lparr>rworld := warnIfQueueTooLarge req (rworld r1)\<rparr>"
  have e1: "exec E (onRequest req) r = (Inr None, r')"
    by (simp add: exec_onRequest r1(1) r'_def)
  have p1: "trace r' = trace r" "now (rworld r') = now (rworld r)"
    "\<exists>st. stateOf (rworld r') req = Some st \<and> \<not> isThrottled st"
    using r1 by (simp_all add: r'_def stateOf_def)
  have h': "\<forall>st. stateOf (rworld r') req = Some st \<and> isThrottled st \<longrightarrow>
          lastRetryTime st + retryAfter st * 1000 - now (rworld r') \<le> 0"
    using p1(3) by auto
  from waitForThrottle_no_delay[OF h', of E]
  obtain r2 where r2: "exec E (waitForThrottle req) r' = (Inr (), r2)"
    "trace r2 = trace r'" "now (rworld r2) = now (rworld r')"
    "\<exists>st. stateOf (rworld r2) req = Some st \<and> \<not> isThrottled st"
    by blast
  define r'' where "r'' = r2\<lparr>rworld := warnIfQueueTooLarge req (rworld r2)\<rparr>"
  have e2: "exec E (onRequest req) r' = (Inr None, r'')"
    by (simp add: exec_onRequest r2(1) r''_def)
  have p2: "trace r'' = trace r'" "now (rworld r'') = now (rworld r')"
    "\<exists>st. stateOf (rworld r'') req = Some st \<and> \<not> isThrottled st"
    using r2 by (simp_all add: r''_def stateOf_def)
  show "case exec E (onRequest req) r of
       (result, r') \<Rightarrow>
         result = Inr None \<and> fst (exec E (waitForThrottle req) r) = Inr () \<and>
         trace r' = trace r \<and> now (rworld r') = now (rworld r) \<and>
         (\<exists>st. stateOf (rworld r') req = Some st \<and> \<not> isThrottled st) \<and>
         (case exec E (onRequest req) r' of
            (result', r'') \<Rightarrow>
              result' = Inr None \<and> trace r'' = trace r' \<and>
              now (rworld r'') = now (rworld r') \<and>
              (\<exists>st. stateOf (rworld r'') req = Some st \<and> \<not> isThrottled st))"
    using e1 p1 e2 p2 r1(1) by simp
next
  from waitForThrottle_returns[of E req r]
  obtain r1 where r1: "exec E (waitForThrottle req) r = (Inr (), r1)"
    "\<exists>st. stateOf (rworld r1) req = Some st \<and> \<not> isThrottled st"
    by blast
  then show "\<exists>st. stateOf (rworld (snd (exec E (onRequest req) r))) req = Some st \<and> \<not> isThrottled st"
    by (simp add: exec_onRequest stateOf_def)
qed

lemma exRequest_key: "getEndpointKey exRequest = ''GET:/v1/subscribers''"
  by (simp add: getEndpointKey_def exRequest_def pathname_def endsPath_def endsAuthority_def)

theorem onRequest_no_delay_witness:
  "(case exec (envAnswering (Inr exSuccess)) (onRequest exRequest) exElapsed of
      (result, r') \<Rightarrow>
        result = Inr None \<and> trace r' = [] \<and> now (rworld r') = 5000 \<and>
        \<not> throttled (rworld r') exRequest \<and>
        trace (snd (exec (envAnswering (Inr exSuccess)) (onRequest exRequest) r')) = [])"
  using onRequest_no_delay
    [where r = exElapsed and req = exRequest and E = "envAnswering (Inr exSuccess)"]
  by (auto simp: exElapsed_def stateOf_def exRequest_key throttled_def split: prod.splits)

lemma exec_trace_extends: "\<exists>rest. trace (snd (exec E t r)) = trace r @ rest"
proof (induction t arbitrary: r)
  case (Put g t)
  from Put.IH[of "r\<lparr>rworld := g (rworld r)\<rparr>"] show ?case by simp
next
  case (Delay ms t)
  from Delay.IH[of "suspend E (Slept ms) (timerDelay ms) r"] show ?case by auto
next
  case (Fetch rq op k)
  have "\<exists>rest. trace (snd (exec E (k (transport E (sends (trace r)) rq op))
                              (suspend E (Sent rq op) 0 r))) =
               trace (suspend E (Sent rq op) 0 r) @ rest"
    by (rule Fetch.IH) simp
  then show ?case by auto
next
  case (ReadJson resp k)
  have "\<exists>rest. trace (snd (exec E (k (body resp)) (suspend E (Parsed resp) 0 r))) =
               trace (suspend E (Parsed resp) 0 r) @ rest"
    by (rule ReadJson.IH) simp
  then show ?case by auto
qed simp_all

lemma retryLoop_first_wait:
  "\<exists>rest. trace (snd (exec E (retryLoop req key 0 secs lastR) r)) =
          trace r @ Slept (secs * 1000) # Sent req [] # rest"
proof -
  define k where "k = (\<lambda>outcome.
             case outcome of
               Inl err \<Rightarrow> Put (clearThrottled key) (Throw err)
             | Inr retryResponse \<Rightarrow>
                 if status retryResponse \<noteq> 429
                 then Put (clearThrottled key) (Return retryResponse)
                 else bind (isRetryable retryResponse) (\<lambda>shouldRetryAgain.
                   if \<not> shouldRetryAgain
                   then Put (clearThrottled key) (Return retryResponse)
                   else
                     Put (\<lambda>w. modState key
                           (\<lambda>st. st\<lparr>retryAfter := getRetryAfterTime retryResponse,
                                     lastRetryTime := now w\<rparr>) w)
                       (retryLoop req key (Suc 0)
                          (getRetryAfterTime retryResponse) retryResponse)))"
  have u: "retryLoop req key 0 secs lastR = Delay (secs * 1000) (Fetch req [] k)"
    by (simp add: retryLoop.simps[of req key 0] maxRetries_def k_def)
  obtain rest where
    "trace (snd (exec E (k (transport E (sends (trace r)) req [])) (afterSend E req secs r))) =
       trace (afterSend E req secs r) @ rest"
    using exec_trace_extends by blast
  then show ?thesis by (simp add: u afterSend_def)
qed

lemma parseInt_leading:
  "parseInt v =
     (if leadingDigits v = [] then None
      else Some (if hasMinus v then - decimalOf (leadingDigits v)
                 else decimalOf (leadingDigits v)))"
  by (cases "dropWhile isWhiteSpace v")
     (simp_all add: parseInt_def leadingDigits_def unsignedPart_def hasMinus_def
       digitsValue_decimalOf Let_def del: dropWhile_eq_Nil_conv)

lemma leadingDigits_decimal: "isDecimalInteger v \<Longrightarrow> leadingDigits v = v \<and> \<not> hasMinus v"
proof -
  assume a: "isDecimalInteger v"
  then obtain c cs where v: "v = c # cs" by (cases v) (auto simp: isDecimalInteger_def)
  have c: "isDigit c" using a v by (simp add: isDecimalInteger_def)
  have nws: "\<not> isWhiteSpace c" using c by (auto simp: isDigit_def isWhiteSpace_def)
  have nsign: "c \<noteq> CHR ''+''" "c \<noteq> CHR ''-''" using c by (auto simp: isDigit_def)
  have tw: "takeWhile isDigit v = v" using a by (simp add: isDecimalInteger_def list_all_iff)
  show ?thesis using nws nsign tw v by (simp add: leadingDigits_def unsignedPart_def hasMinus_def)
qed

text \<open>
  Claim C7, as the code has it. \<^verbatim>\<open>getRetryAfterTime\<close> gives \<open>1\<close> when the response has no
  Retry-After header and when the value of the header does not begin with an integer.
  When the value begins with an integer, it gives that integer, negated after a minus
  sign, whatever follows the digits (as far as a JavaScript number holds an integer
  exactly, that is up to \<open>2^53\<close>); so it gives the number that a decimal integer denotes. A
  retryable 429 without the header makes \<^verbatim>\<open>handleResponse\<close> call \<^verbatim>\<open>delay(1000)\<close> before its
  first send.
\<close>

theorem getRetryAfterTime_header_or_fallback:
  "(headers_get (headers resp) ''Retry-After'' = None \<longrightarrow> getRetryAfterTime resp = 1) \<and>
   (\<forall>v. headers_get (headers resp) ''Retry-After'' = Some v \<and> leadingDigits v = []
        \<longrightarrow> getRetryAfterTime resp = 1) \<and>
   (\<forall>v. headers_get (headers resp) ''Retry-After'' = Some v \<and> leadingDigits v \<noteq> [] \<and>
        decimalOf (leadingDigits v) \<le> 9007199254740992
        \<longrightarrow> getRetryAfterTime resp =
              (if hasMinus v then - decimalOf (leadingDigits v)
               else decimalOf (leadingDigits v))) \<and>
   (\<forall>v. headers_get (headers resp) ''Retry-After'' = Some v \<and> isDecimalInteger v \<and>
        decimalOf v \<le> 9007199254740992
        \<longrightarrow> getRetryAfterTime resp = decimalOf v) \<and>
   (status resp = 429 \<and> \<not> markedNotRetryable resp \<and>
    headers_get (headers resp) ''Retry-After'' = None \<longrightarrow>
    (\<exists>rest. trace (snd (exec E (handleResponse req resp) r)) =
            trace r @ Parsed resp # Slept 1000 # Sent req [] # rest))"
proof (intro conjI allI impI)
  assume "headers_get (headers resp) ''Retry-After'' = None"
  then show "getRetryAfterTime resp = 1" by (simp add: getRetryAfterTime_eq)
next
  fix v
  assume "headers_get (headers resp) ''Retry-After'' = Some v \<and> leadingDigits v = []"
  then show "getRetryAfterTime resp = 1"
    by (simp add: getRetryAfterTime_eq parseInt_leading)
next
  fix v
  assume "headers_get (headers resp) ''Retry-After'' = Some v \<and> leadingDigits v \<noteq> [] \<and>
        decimalOf (leadingDigits v) \<le> 9007199254740992"
  then show "getRetryAfterTime resp =
      (if hasMinus v then - decimalOf (leadingDigits v) else decimalOf (leadingDigits v))"
    by (simp add: getRetryAfterTime_eq parseInt_leading)
next
  fix v
  assume a: "headers_get (headers resp) ''Retry-After'' = Some v \<and> isDecimalInteger v \<and>
        decimalOf v \<le> 9007199254740992"
  then have "leadingDigits v = v \<and> \<not> hasMinus v" using leadingDigits_decimal by blast
  moreover have "v \<noteq> []" using a by (simp add: isDecimalInteger_def)
  ultimately show "getRetryAfterTime resp = decimalOf v"
    using a by (simp add: getRetryAfterTime_eq parseInt_leading)
next
  assume h: "status resp = 429 \<and> \<not> markedNotRetryable resp \<and>
    headers_get (headers resp) ''Retry-After'' = None"
  then have secs: "getRetryAfterTime resp = 1" by (simp add: getRetryAfterTime_eq)
  obtain rest where
    "trace (snd (exec E (retryLoop req (getEndpointKey req) 0 1 resp) (started E req resp r))) =
       trace (started E req resp r) @ Slept (1 * 1000) # Sent req [] # rest"
    using retryLoop_first_wait by blast
  then show "\<exists>rest. trace (snd (exec E (handleResponse req resp) r)) =
            trace r @ Parsed resp # Slept 1000 # Sent req [] # rest"
    using h secs by (simp add: exec_handleResponse_retryable)
qed

lemma header_single:
  "headers_get [(''Retry-After'', v)] ''Retry-After'' = Some v"
  by (simp add: headers_get_def)

lemma leading_examples:
  "leadingDigits ''2abc'' = ''2'' \<and> \<not> hasMinus ''2abc'' \<and> leadingDigits ''invalid'' = [] \<and>
   isDecimalInteger ''2'' \<and> \<not> isDecimalInteger ''2abc''"
  by (simp add: leadingDigits_def unsignedPart_def hasMinus_def isWhiteSpace_def isDigit_def
      isDecimalInteger_def)

theorem getRetryAfterTime_header_or_fallback_witness:
  "getRetryAfterTime exBare = 1 \<and> getRetryAfterTime exInvalid = 1 \<and>
   getRetryAfterTime exLenient = 2 \<and> getRetryAfterTime exLimited = 2 \<and>
   (\<exists>rest. trace (snd (exec (envAnswering (Inr exSuccess)) (handleResponse exRequest exBare)
        exStart)) = trace exStart @ Parsed exBare # Slept 1000 # Sent exRequest [] # rest)"
proof -
  have none: "headers_get (headers exBare) ''Retry-After'' = None"
    by (simp add: exBare_def headers_get_def)
  have a: "getRetryAfterTime exBare = 1"
    by (rule getRetryAfterTime_header_or_fallback[where resp = exBare,
          THEN conjunct1, THEN mp, OF none])
  have inv: "headers_get (headers exInvalid) ''Retry-After'' = Some ''invalid'' \<and>
      leadingDigits ''invalid'' = []"
    by (simp add: exInvalid_def header_single leading_examples)
  have b: "getRetryAfterTime exInvalid = 1"
    by (rule getRetryAfterTime_header_or_fallback[where resp = exInvalid,
          THEN conjunct2, THEN conjunct1, THEN spec, THEN mp, OF inv])
  have len: "headers_get (headers exLenient) ''Retry-After'' = Some ''2abc'' \<and>
      leadingDigits ''2abc'' \<noteq> [] \<and> decimalOf (leadingDigits ''2abc'') \<le> 9007199254740992"
    by (simp add: exLenient_def header_single leading_examples digitValue_def)
  have "getRetryAfterTime exLenient =
      (if hasMinus ''2abc'' then - decimalOf (leadingDigits ''2abc'')
       else decimalOf (leadingDigits ''2abc''))"
    by (rule getRetryAfterTime_header_or_fallback[where resp = exLenient,
          THEN conjunct2, THEN conjunct2, THEN conjunct1, THEN spec, THEN mp, OF len])
  then have c: "getRetryAfterTime exLenient = 2"
    by (simp add: leading_examples digitValue_def)
  have dec: "headers_get (headers exLimited) ''Retry-After'' = Some ''2'' \<and>
      isDecimalInteger ''2'' \<and> decimalOf ''2'' \<le> 9007199254740992"
    by (simp add: exLimited_def header_single leading_examples digitValue_def)
  have "getRetryAfterTime exLimited = decimalOf ''2''"
    by (rule getRetryAfterTime_header_or_fallback[where resp = exLimited,
          THEN conjunct2, THEN conjunct2, THEN conjunct2, THEN conjunct1, THEN spec, THEN mp,
          OF dec])
  then have d: "getRetryAfterTime exLimited = 2" by (simp add: digitValue_def)
  have hyp: "status exBare = 429 \<and> \<not> markedNotRetryable exBare \<and>
      headers_get (headers exBare) ''Retry-After'' = None"
    using none by (simp add: exBare_def markedNotRetryable_def)
  have e: "\<exists>rest. trace (snd (exec (envAnswering (Inr exSuccess)) (handleResponse exRequest exBare)
        exStart)) = trace exStart @ Parsed exBare # Slept 1000 # Sent exRequest [] # rest"
    by (rule getRetryAfterTime_header_or_fallback[where resp = exBare,
          THEN conjunct2, THEN conjunct2, THEN conjunct2, THEN conjunct2, THEN mp, OF hyp])
  show ?thesis using a b c d e by simp
qed

text \<open>
  Claim C7, as the specification states it, fails: the header value \<^verbatim>\<open>2abc\<close> is no decimal
  integer, and the result is \<open>2\<close>, not the fallback \<open>1\<close>.
\<close>

theorem getRetryAfterTime_lenient:
  "\<not> isDecimalInteger ''2abc'' \<and>
   headers_get (headers exLenient) ''Retry-After'' = Some ''2abc'' \<and>
   getRetryAfterTime exLenient = 2 \<and> getRetryAfterTime exLenient \<noteq> 1"
  by (simp add: exLenient_def getRetryAfterTime_def headers_get_def parseInt_def isWhiteSpace_def
      isDigit_def digitsValue_def digitValue_def isDecimalInteger_def)

lemma takeWhile_method:
  "CHR '':'' \<notin> set m \<Longrightarrow> takeWhile (\<lambda>c. c \<noteq> CHR '':'') (m @ '':'' @ p) = m"
  by (induction m) auto

lemma key_parts:
  assumes "CHR '':'' \<notin> set m1" and "CHR '':'' \<notin> set m2"
    and "m1 @ '':'' @ p1 = m2 @ '':'' @ p2"
  shows "m1 = m2 \<and> p1 = p2"
proof -
  have "takeWhile (\<lambda>c. c \<noteq> CHR '':'') (m1 @ '':'' @ p1) =
        takeWhile (\<lambda>c. c \<noteq> CHR '':'') (m2 @ '':'' @ p2)"
    using assms(3) by simp
  then have m: "m1 = m2"
    using takeWhile_method[OF assms(1), of p1] takeWhile_method[OF assms(2), of p2] by simp
  then show ?thesis using assms(3) by simp
qed

lemma afterScheme_serialised:
  "CHR '':'' \<notin> set scheme \<Longrightarrow> afterScheme (scheme @ ''://'' @ rest) = rest"
  by (induction scheme) auto

lemma pathname_serialised:
  assumes "CHR '':'' \<notin> set scheme"
    and "\<forall>c\<in>set authority. \<not> endsAuthority c"
    and "path \<noteq> []" and "hd path = CHR ''/''"
    and "\<forall>c\<in>set path. \<not> endsPath c"
  shows "pathname (scheme @ ''://'' @ authority @ path @ ''?'' @ query) = path"
proof -
  obtain rest where p: "path = CHR ''/'' # rest" using assms(3,4) by (cases path) auto
  have a: "afterScheme (scheme @ ''://'' @ authority @ path @ ''?'' @ query) =
      authority @ path @ ''?'' @ query"
    by (rule afterScheme_serialised[OF assms(1)])
  have b: "dropWhile (\<lambda>c. \<not> endsAuthority c) (authority @ path @ ''?'' @ query) =
      path @ ''?'' @ query"
    using assms(2) p by (simp add: dropWhile_append2 endsAuthority_def)
  have c: "takeWhile (\<lambda>c. \<not> endsPath c) (path @ ''?'' @ query) = path"
    using assms(5) by (simp add: takeWhile_append2 endsPath_def)
  show ?thesis using a b c assms(3) by (simp add: pathname_def)
qed

lemma states_cleared_other:
  "k \<noteq> key \<Longrightarrow> endpointStates (rworld (cleared key r)) k = endpointStates (rworld r) k"
  by (simp add: cleared_def clearThrottled_def modState_def split: option.splits)

lemma states_recorded_other:
  "k \<noteq> key \<Longrightarrow> endpointStates (rworld (recorded key rr r)) k = endpointStates (rworld r) k"
  by (simp add: recorded_def modState_def split: option.splits)

lemma states_started_other:
  "k \<noteq> getEndpointKey req \<Longrightarrow>
   endpointStates (rworld (started E req resp r)) k = endpointStates (rworld r) k"
  by (simp add: started_def Let_def modState_def initState_def split: option.splits)

lemma retryLoop_frame:
  "k \<noteq> key \<Longrightarrow> maxRetries - attempt = n \<Longrightarrow>
   endpointStates (rworld (snd (exec E (retryLoop req key attempt secs lastR) r))) k =
     endpointStates (rworld r) k"
proof (induction n arbitrary: attempt secs lastR r)
  case 0
  then have "\<not> attempt < maxRetries" by simp
  then show ?case using 0 by (simp add: exec_retryLoop_exhausted states_cleared_other)
next
  case (Suc n)
  then have lt: "attempt < maxRetries" by simp
  have n: "maxRetries - Suc attempt = n" using Suc.prems by simp
  note k = Suc.prems(1)
  show ?case
  proof (cases "transport E (sends (trace r)) req []")
    case (Inl err)
    show ?thesis
      using exec_retryLoop_error[OF lt Inl, of key secs lastR] k
      by (simp add: states_cleared_other)
  next
    case (Inr rr)
    show ?thesis
    proof (cases "status rr = 429")
      case False
      then show ?thesis
        using exec_retryLoop_other[OF lt Inr, of key secs lastR] k
        by (simp add: states_cleared_other)
    next
      case True
      show ?thesis
      proof (cases "markedNotRetryable rr")
        case True
        then show ?thesis
          using exec_retryLoop_stop[OF lt Inr \<open>status rr = 429\<close>, of key secs lastR] k
          by (simp add: states_cleared_other)
      next
        case False
        define r1 where "r1 = recorded key rr (suspend E (Parsed rr) 0 (afterSend E req secs r))"
        have e: "exec E (retryLoop req key attempt secs lastR) r =
            exec E (retryLoop req key (Suc attempt) (getRetryAfterTime rr) rr) r1"
          unfolding r1_def by (rule exec_retryLoop_again[OF lt Inr True False])
        have "endpointStates (rworld (snd (exec E (retryLoop req key (Suc attempt)
                 (getRetryAfterTime rr) rr) r1))) k = endpointStates (rworld r1) k"
          by (rule Suc.IH[OF k n])
        then show ?thesis using e k by (simp add: r1_def states_recorded_other)
      qed
    qed
  qed
qed

lemma handleResponse_frame:
  assumes "k \<noteq> getEndpointKey req"
  shows "endpointStates (rworld (snd (exec E (handleResponse req resp) r))) k =
     endpointStates (rworld r) k"
proof (cases "status resp = 429")
  case False
  then show ?thesis by (simp add: handleResponse_def)
next
  case True
  show ?thesis
  proof (cases "markedNotRetryable resp")
    case True
    then show ?thesis using \<open>status resp = 429\<close> by (simp add: exec_handleResponse_marked)
  next
    case False
    have "endpointStates (rworld (snd (exec E (retryLoop req (getEndpointKey req) 0
             (getRetryAfterTime resp) resp) (started E req resp r)))) k =
          endpointStates (rworld (started E req resp r)) k"
      by (rule retryLoop_frame[OF assms]) simp
    then show ?thesis
      using True False assms by (simp add: exec_handleResponse_retryable states_started_other)
  qed
qed

lemma getQueueSize_withEntry:
  "getEndpointKey b \<noteq> k \<Longrightarrow>
   endpointStates w' (getEndpointKey b) = endpointStates w (getEndpointKey b) \<Longrightarrow>
   getQueueSize b w' = getQueueSize b w"
  by (simp add: getQueueSize_def)

lemma onRequest_frame:
  assumes "ka \<noteq> getEndpointKey b"
  shows "fst (exec E (onRequest b) (withEntry ka st r)) = fst (exec E (onRequest b) r) \<and>
         trace (snd (exec E (onRequest b) (withEntry ka st r))) =
           trace (snd (exec E (onRequest b) r)) \<and>
         now (rworld (snd (exec E (onRequest b) (withEntry ka st r)))) =
           now (rworld (snd (exec E (onRequest b) r)))"
  using assms
  by (cases "endpointStates (rworld r) (getEndpointKey b)")
     (auto simp: exec_onRequest exec_waitForThrottle withEntry_def initState_def Let_def
       cleared_def suspend_def)

text \<open>
  Claim C3. The key of a request is its method, a colon and the path of its URL; the query
  string and the body have no part in it. Two requests with the same method and path have
  the same key. Where the methods are HTTP tokens (no colon stands in a token), two
  requests with the same key have the same method and the same path. A request whose key
  is another one than that of a throttled endpoint is not held up by it: whatever entry
  that endpoint has, the pre-send hook for the request does the same, and the post-receive
  hook of the one endpoint leaves the entry of the other as it was.
\<close>

theorem getEndpointKey_identity:
  "(httpMethod a = httpMethod b \<and> pathname (url a) = pathname (url b) \<longrightarrow>
      getEndpointKey a = getEndpointKey b \<and> stateOf w a = stateOf w b) \<and>
   (CHR '':'' \<notin> set (httpMethod a) \<and> CHR '':'' \<notin> set (httpMethod b) \<and>
    getEndpointKey a = getEndpointKey b \<longrightarrow>
      httpMethod a = httpMethod b \<and> pathname (url a) = pathname (url b)) \<and>
   (CHR '':'' \<notin> set scheme \<and> (\<forall>c\<in>set authority. \<not> endsAuthority c) \<and>
    path \<noteq> [] \<and> hd path = CHR ''/'' \<and> (\<forall>c\<in>set path. \<not> endsPath c) \<longrightarrow>
      getEndpointKey \<lparr>httpMethod = m, url = scheme @ ''://'' @ authority @ path @ ''?'' @ query,
                      payload = p\<rparr> = m @ '':'' @ path) \<and>
   (getEndpointKey a \<noteq> getEndpointKey b \<longrightarrow>
      fst (exec E (onRequest b) (withEntry (getEndpointKey a) st r)) =
        fst (exec E (onRequest b) r) \<and>
      trace (snd (exec E (onRequest b) (withEntry (getEndpointKey a) st r))) =
        trace (snd (exec E (onRequest b) r)) \<and>
      now (rworld (snd (exec E (onRequest b) (withEntry (getEndpointKey a) st r)))) =
        now (rworld (snd (exec E (onRequest b) r))) \<and>
      endpointStates (rworld (snd (exec E (handleResponse a resp) r))) (getEndpointKey b) =
        endpointStates (rworld r) (getEndpointKey b))"
proof (intro conjI impI)
  assume "httpMethod a = httpMethod b \<and> pathname (url a) = pathname (url b)"
  then show "getEndpointKey a = getEndpointKey b" and "stateOf w a = stateOf w b"
    by (simp_all add: getEndpointKey_def stateOf_def)
next
  assume h: "CHR '':'' \<notin> set (httpMethod a) \<and> CHR '':'' \<notin> set (httpMethod b) \<and>
    getEndpointKey a = getEndpointKey b"
  then have "httpMethod a @ '':'' @ pathname (url a) = httpMethod b @ '':'' @ pathname (url b)"
    by (simp add: getEndpointKey_def)
  with h have "httpMethod a = httpMethod b \<and> pathname (url a) = pathname (url b)"
    using key_parts by blast
  then show "httpMethod a = httpMethod b" and "pathname (url a) = pathname (url b)" by simp_all
next
  assume "CHR '':'' \<notin> set scheme \<and> (\<forall>c\<in>set authority. \<not> endsAuthority c) \<and>
    path \<noteq> [] \<and> hd path = CHR ''/'' \<and> (\<forall>c\<in>set path. \<not> endsPath c)"
  then have "pathname (scheme @ ''://'' @ authority @ path @ ''?'' @ query) = path"
    using pathname_serialised by blast
  then show "getEndpointKey \<lparr>httpMethod = m, url = scheme @ ''://'' @ authority @ path @ ''?'' @ query,
                      payload = p\<rparr> = m @ '':'' @ path"
    by (simp add: getEndpointKey_def)
next
  assume ne: "getEndpointKey a \<noteq> getEndpointKey b"
  note f = onRequest_frame[OF ne, of E st r]
  show "fst (exec E (onRequest b) (withEntry (getEndpointKey a) st r)) =
        fst (exec E (onRequest b) r)" using f by simp
  show "trace (snd (exec E (onRequest b) (withEntry (getEndpointKey a) st r))) =
        trace (snd (exec E (onRequest b) r))" using f by simp
  show "now (rworld (snd (exec E (onRequest b) (withEntry (getEndpointKey a) st r)))) =
        now (rworld (snd (exec E (onRequest b) r)))" using f by simp
  show "endpointStates (rworld (snd (exec E (handleResponse a resp) r))) (getEndpointKey b) =
        endpointStates (rworld r) (getEndpointKey b)"
    using ne by (simp add: handleResponse_frame)
qed

lemma exPost_key: "getEndpointKey exPost = ''POST:/v1/subscribers''"
  by (simp add: getEndpointKey_def exPost_def pathname_def endsPath_def endsAuthority_def)

lemma exQuery_key: "getEndpointKey exQuery = ''GET:/v1/subscribers''"
  by (simp add: getEndpointKey_def exQuery_def pathname_def endsPath_def endsAuthority_def)

lemma exQuery_parts:
  "httpMethod exQuery = httpMethod exRequest \<and> pathname (url exQuery) = pathname (url exRequest)"
  by (simp add: exQuery_def exRequest_def pathname_def endsPath_def endsAuthority_def)

theorem getEndpointKey_identity_witness:
  "getEndpointKey exQuery = getEndpointKey exRequest \<and>
   stateOf (rworld exElapsed) exQuery = stateOf (rworld exElapsed) exRequest \<and>
   httpMethod exQuery = httpMethod exRequest \<and>
   pathname (url exQuery) = pathname (url exRequest) \<and>
   getEndpointKey exPost \<noteq> getEndpointKey exRequest \<and>
   getEndpointKey exPost = ''POST'' @ '':'' @ ''/v1/subscribers'' \<and>
   trace (snd (exec (envAnswering (Inr exSuccess)) (onRequest exPost)
                 (withEntry (getEndpointKey exRequest) exThrottled exStart))) = [] \<and>
   endpointStates (rworld (snd (exec (envAnswering (Inr exLimited))
       (handleResponse exRequest exLimited) exStart))) (getEndpointKey exPost) = None"
proof -
  note same = getEndpointKey_identity
    [where a = exQuery and b = exRequest and w = "rworld exElapsed" and scheme = "''https''"
       and authority = "''api.revenuecat.com''" and path = "''/v1/subscribers''"
       and query = "''id=3''" and m = "''POST''" and p = "Some ''{}''"]
  note other = getEndpointKey_identity
    [where a = exRequest and b = exPost and E = "envAnswering (Inr exSuccess)"
       and st = exThrottled and r = exStart]
  note other' = getEndpointKey_identity
    [where a = exRequest and b = exPost and E = "envAnswering (Inr exLimited)"
       and resp = exLimited and r = exStart]
  have k: "getEndpointKey exQuery = getEndpointKey exRequest \<and>
      stateOf (rworld exElapsed) exQuery = stateOf (rworld exElapsed) exRequest"
    by (rule same[THEN conjunct1, THEN mp, OF exQuery_parts])
  have tok: "CHR '':'' \<notin> set (httpMethod exQuery) \<and> CHR '':'' \<notin> set (httpMethod exRequest) \<and>
      getEndpointKey exQuery = getEndpointKey exRequest"
    using k by (simp add: exQuery_def exRequest_def)
  have parts: "httpMethod exQuery = httpMethod exRequest \<and>
      pathname (url exQuery) = pathname (url exRequest)"
    by (rule same[THEN conjunct2, THEN conjunct1, THEN mp, OF tok])
  have wf: "CHR '':'' \<notin> set ''https'' \<and> (\<forall>c\<in>set ''api.revenuecat.com''. \<not> endsAuthority c) \<and>
      ''/v1/subscribers'' \<noteq> [] \<and> hd ''/v1/subscribers'' = CHR ''/'' \<and>
      (\<forall>c\<in>set ''/v1/subscribers''. \<not> endsPath c)"
    by (simp add: endsAuthority_def endsPath_def)
  have "getEndpointKey \<lparr>httpMethod = ''POST'',
        url = ''https'' @ ''://'' @ ''api.revenuecat.com'' @ ''/v1/subscribers'' @ ''?'' @ ''id=3'',
        payload = Some ''{}''\<rparr> = ''POST'' @ '':'' @ ''/v1/subscribers''"
    by (rule same[THEN conjunct2, THEN conjunct2, THEN conjunct1, THEN mp, OF wf])
  then have post: "getEndpointKey exPost = ''POST'' @ '':'' @ ''/v1/subscribers''"
    by (simp add: exPost_def)
  have ne: "getEndpointKey exRequest \<noteq> getEndpointKey exPost"
    by (simp add: exRequest_key exPost_key)
  note fr = other[THEN conjunct2, THEN conjunct2, THEN conjunct2, THEN mp, OF ne]
  note fr' = other'[THEN conjunct2, THEN conjunct2, THEN conjunct2, THEN mp, OF ne]
  have quiet: "trace (snd (exec (envAnswering (Inr exSuccess)) (onRequest exPost) exStart)) = []"
    by (simp add: exec_onRequest exec_waitForThrottle exStart_def initState_def defaultState_def)
  have tr: "trace (snd (exec (envAnswering (Inr exSuccess)) (onRequest exPost)
                 (withEntry (getEndpointKey exRequest) exThrottled exStart))) = []"
    using fr quiet by simp
  have un: "endpointStates (rworld (snd (exec (envAnswering (Inr exLimited))
       (handleResponse exRequest exLimited) exStart))) (getEndpointKey exPost) = None"
    using fr' by (simp add: exStart_def)
  show ?thesis using k parts post ne tr un by simp
qed

lemma benign_initState: "benign (initState key)"
  by (auto simp: benign_def initState_def defaultState_def split: if_splits)

lemma benign_clearThrottled: "benign (clearThrottled key)"
  by (auto simp: benign_def clearThrottled_def modState_def split: option.splits if_splits)

lemma benign_warn: "benign (warnIfQueueTooLarge req)"
  by (auto simp: benign_def warnIfQueueTooLarge_def)

lemma records_first:
  "records key resp (\<lambda>w. modState key
      (\<lambda>st. st\<lparr>isThrottled := True, retryAfter := getRetryAfterTime resp, lastRetryTime := now w\<rparr>) w)"
  by (auto simp: records_def modState_def split: option.splits if_splits)

lemma records_again:
  "records key resp (\<lambda>w. modState key
      (\<lambda>st. st\<lparr>retryAfter := getRetryAfterTime resp, lastRetryTime := now w\<rparr>) w)"
  by (auto simp: records_def modState_def split: option.splits if_splits)

lemma disciplined_bind:
  "disciplined key t pend \<Longrightarrow> (\<And>a. disciplined key (f a) None) \<Longrightarrow>
   disciplined key (bind t f) pend"
  by (induction t arbitrary: pend) auto

lemma disciplined_isRetryable:
  "disciplined key (bind (isRetryable resp) f) pend =
     (pend = None \<and>
      disciplined key (f (\<not> markedNotRetryable resp)) (if isSignal resp then Some resp else None))"
proof (cases "body resp")
  case None
  then show ?thesis by (simp add: isRetryable_def markedNotRetryable_def)
next
  case (Some b)
  then show ?thesis
    by (cases b) (auto simp: isRetryable_def markedNotRetryable_def)
qed

lemma disciplined_waitForThrottle: "disciplined key (waitForThrottle req) None"
  by (auto simp: waitForThrottle_def Let_def benign_initState benign_clearThrottled
      split: option.splits)

lemma disciplined_onRequest: "disciplined key (onRequest req) None"
  unfolding onRequest_def
  by (rule disciplined_bind[OF disciplined_waitForThrottle]) (simp add: benign_warn)

lemma disciplined_retryLoop:
  "maxRetries - attempt = n \<Longrightarrow> disciplined key (retryLoop req key attempt secs lastR) None"
proof (induction n arbitrary: attempt secs lastR)
  case 0
  then show ?case by (simp add: retryLoop.simps[of req key attempt] benign_clearThrottled)
next
  case (Suc n)
  then have lt: "attempt < maxRetries" by simp
  have n: "maxRetries - Suc attempt = n" using Suc.prems by simp
  have ih: "\<And>secs lastR. disciplined key (retryLoop req key (Suc attempt) secs lastR) None"
    by (rule Suc.IH[OF n])
  show ?case
    using lt ih
    by (auto simp: retryLoop.simps[of req key attempt] disciplined_isRetryable
        benign_clearThrottled records_again isSignal_def split: sum.splits)
qed

lemma disciplined_handleResponse:
  "disciplined (getEndpointKey req) (handleResponse req resp) None"
  using disciplined_retryLoop[OF refl, where attempt = 0 and key = "getEndpointKey req" and req = req]
  by (auto simp: handleResponse_def disciplined_isRetryable Let_def isSignal_def
      benign_initState records_first)

lemma disciplined_onResponse:
  "disciplined (getEndpointKey req) (onResponse req resp) None"
  unfolding onResponse_def
  by (auto intro!: disciplined_bind disciplined_handleResponse)

lemma throttledAt_iff:
  "throttledAt w k \<longleftrightarrow> (\<exists>st. endpointStates w k = Some st \<and> isThrottled st)"
  by (simp add: throttledAt_def split: option.splits)

lemma lastSignal_alt:
  "lastSignal log k =
     (if filter (\<lambda>ob. fst ob = k \<and> isSignal (fst (snd ob))) log = [] then None
      else Some (snd (last (filter (\<lambda>ob. fst ob = k \<and> isSignal (fst (snd ob))) log))))"
  by (simp add: lastSignal_def split: list.splits)

lemma lastSignal_snoc:
  "lastSignal (log @ [(k', resp, t)]) k =
     (if k = k' \<and> isSignal resp then Some (resp, t) else lastSignal log k)"
  by (simp add: lastSignal_alt)

lemma benign_throttledAt: "benign g \<Longrightarrow> throttledAt (g w) k \<Longrightarrow> throttledAt w k"
  unfolding benign_def throttledAt_iff by blast

lemma records_throttledAt:
  "records key resp g \<Longrightarrow> k \<noteq> key \<Longrightarrow> throttledAt (g w) k \<Longrightarrow> throttledAt w k"
  unfolding records_def throttledAt_iff by (metis (no_types, lifting))

lemma benign_now: "benign g \<Longrightarrow> now (g w) = now w"
  by (simp add: benign_def)

lemma records_now: "records key resp g \<Longrightarrow> now (g w) = now w"
  by (simp add: records_def)

lemma benign_consistent: "benign g \<Longrightarrow> consistent w log \<Longrightarrow> consistent (g w) log"
  unfolding benign_def consistent_def by (metis (no_types, lifting))

lemma benign_consistentBut:
  "benign g \<Longrightarrow> consistentBut key w log \<Longrightarrow> consistentBut key (g w) log"
  unfolding benign_def consistentBut_def by (metis (no_types, lifting))

lemma records_consistent:
  assumes "records key resp g" and "consistentBut key w log"
    and "lastSignal log key = Some (resp, now w)"
  shows "consistent (g w) log"
  unfolding consistent_def
proof (intro allI impI)
  fix k st'
  assume h: "endpointStates (g w) k = Some st' \<and> isThrottled st'"
  show "\<exists>resp t. lastSignal log k = Some (resp, t) \<and>
           retryAfter st' = getRetryAfterTime resp \<and> lastRetryTime st' = t"
  proof (cases "k = key")
    case True
    then have "retryAfter st' = getRetryAfterTime resp \<and> lastRetryTime st' = now w"
      using assms(1) h unfolding records_def by (metis (no_types, lifting))
    then show ?thesis using assms(3) True by simp
  next
    case False
    then obtain st where "endpointStates w k = Some st" "isThrottled st"
      "retryAfter st = retryAfter st'" "lastRetryTime st = lastRetryTime st'"
      using assms(1) h unfolding records_def by (metis (no_types, lifting))
    then show ?thesis using assms(2) False unfolding consistentBut_def by metis
  qed
qed

lemma drive_disciplined:
  "disciplined key t pend \<Longrightarrow>
   (case pend of
      None \<Rightarrow> consistent w log
    | Some resp \<Rightarrow> consistentBut key w log \<and> lastSignal log key = Some (resp, now w)) \<Longrightarrow>
   drive t w = (p, w') \<Longrightarrow>
   consistent w' log \<and> okPending key p \<and> now w' = now w \<and>
   (\<forall>k. throttledAt w' k \<and> \<not> throttledAt w k \<longrightarrow> k = key \<and> pend \<noteq> None)"
proof (induction t arbitrary: w pend)
  case (Return a)
  then show ?case by auto
next
  case (Throw e)
  then show ?case by auto
next
  case (Get k)
  have d: "disciplined key (k w) pend" using Get.prems(1) by simp
  have dr: "drive (k w) w = (p, w')" using Get.prems(3) by simp
  show ?case by (rule Get.IH[OF _ d Get.prems(2) dr]) simp
next
  case (Put g t)
  have dr: "drive t (g w) = (p, w')" using Put.prems(3) by simp
  from Put.prems(1) consider
      (quiet) "benign g" "disciplined key t pend"
    | (rec) resp where "pend = Some resp" "records key resp g" "disciplined key t None"
    by auto
  then show ?case
  proof cases
    case quiet
    have pre: "case pend of
        None \<Rightarrow> consistent (g w) log
      | Some resp \<Rightarrow> consistentBut key (g w) log \<and> lastSignal log key = Some (resp, now (g w))"
      using Put.prems(2) quiet(1)
      by (auto simp: benign_consistent benign_consistentBut benign_now split: option.splits)
    have ih: "consistent w' log \<and> okPending key p \<and> now w' = now (g w) \<and>
        (\<forall>k. throttledAt w' k \<and> \<not> throttledAt (g w) k \<longrightarrow> k = key \<and> pend \<noteq> None)"
      by (rule Put.IH[OF quiet(2) pre dr])
    then show ?thesis
      using benign_throttledAt[OF quiet(1)] benign_now[OF quiet(1)] by metis
  next
    case rec
    have pre: "case None of
        None \<Rightarrow> consistent (g w) log
      | Some resp \<Rightarrow> consistentBut key (g w) log \<and> lastSignal log key = Some (resp, now (g w))"
      using Put.prems(2) rec(1,2) by (simp add: records_consistent)
    have ih: "consistent w' log \<and> okPending key p \<and> now w' = now (g w) \<and>
        (\<forall>k. throttledAt w' k \<and> \<not> throttledAt (g w) k \<longrightarrow> k = key \<and> (None::response option) \<noteq> None)"
      by (rule Put.IH[OF rec(3) pre dr])
    then show ?thesis
      using records_throttledAt[OF rec(2)] records_now[OF rec(2)] rec(1) by (metis option.distinct(1))
  qed
next
  case (Delay ms t)
  then show ?case by auto
next
  case (Fetch rq op k)
  then show ?case by auto
next
  case (ReadJson resp k)
  then show ?case by auto
qed

lemma consistent_now [simp]: "consistent (w\<lparr>now := t\<rparr>) log = consistent w log"
  by (simp add: consistent_def)

lemma throttledAt_now [simp]: "throttledAt (w\<lparr>now := t\<rparr>) k = throttledAt w k"
  by (simp add: throttledAt_def)

lemma consistent_observe:
  assumes "consistent w log"
  shows "case (if isSignal resp then Some resp else None) of
           None \<Rightarrow> consistent w (log @ [(key, resp, now w)])
         | Some resp' \<Rightarrow>
             consistentBut key w (log @ [(key, resp, now w)]) \<and>
             lastSignal (log @ [(key, resp, now w)]) key = Some (resp', now w)"
  using assms
  by (auto simp: consistent_def consistentBut_def lastSignal_snoc)

lemma okPending_update:
  assumes "\<forall>h \<in> set hs. okPending (getEndpointKey (fst h)) (snd h)"
    and "okPending (getEndpointKey req) p"
  shows "\<forall>h \<in> set (hs[i := (req, p)]). okPending (getEndpointKey (fst h)) (snd h)"
proof
  fix h assume "h \<in> set (hs[i := (req, p)])"
  then have "h = (req, p) \<or> h \<in> set hs"
    using set_update_subset_insert[of hs i "(req, p)"] by auto
  then show "okPending (getEndpointKey (fst h)) (snd h)" using assms by auto
qed

lemma okPending_nth:
  "\<forall>h \<in> set hs. okPending (getEndpointKey (fst h)) (snd h) \<Longrightarrow> i < length hs \<Longrightarrow>
   hs ! i = (req, p) \<Longrightarrow> okPending (getEndpointKey req) p"
  by (metis fst_conv nth_mem snd_conv)

lemma step_poolInv:
  assumes "poolInv P" and "step P Q"
  shows "poolInv Q \<and>
         (\<forall>key. throttledAt (pworld Q) key \<and> \<not> throttledAt (pworld P) key \<longrightarrow>
            (\<exists>resp. isSignal resp \<and>
               observed Q = observed P @ [(key, resp, now (pworld P))]))"
  using assms(2)
proof cases
  case (callOnRequest req p w')
  have c: "consistent (pworld P) (observed P)" using assms(1) by (simp add: poolInv_def)
  have pre: "case None of None \<Rightarrow> consistent (pworld P) (observed P)
        | Some resp \<Rightarrow> consistentBut (getEndpointKey req) (pworld P) (observed P) \<and>
            lastSignal (observed P) (getEndpointKey req) = Some (resp, now (pworld P))"
    using c by simp
  have d: "consistent w' (observed P) \<and> okPending (getEndpointKey req) p \<and>
      now w' = now (pworld P) \<and>
      (\<forall>k. throttledAt w' k \<and> \<not> throttledAt (pworld P) k \<longrightarrow>
         k = getEndpointKey req \<and> (None::response option) \<noteq> None)"
    by (rule drive_disciplined[OF disciplined_onRequest pre callOnRequest(2)])
  then show ?thesis
    using assms(1) callOnRequest(1) by (auto simp: poolInv_def)
next
  case (callOnResponse req resp p w')
  have c: "consistent (pworld P) (observed P)" using assms(1) by (simp add: poolInv_def)
  have pre: "case None of None \<Rightarrow> consistent (pworld P) (observed P)
        | Some resp \<Rightarrow> consistentBut (getEndpointKey req) (pworld P) (observed P) \<and>
            lastSignal (observed P) (getEndpointKey req) = Some (resp, now (pworld P))"
    using c by simp
  have d: "consistent w' (observed P) \<and> okPending (getEndpointKey req) p \<and>
      now w' = now (pworld P) \<and>
      (\<forall>k. throttledAt w' k \<and> \<not> throttledAt (pworld P) k \<longrightarrow>
         k = getEndpointKey req \<and> (None::response option) \<noteq> None)"
    by (rule drive_disciplined[OF disciplined_onResponse pre callOnResponse(2)])
  then show ?thesis
    using assms(1) callOnResponse(1) by (auto simp: poolInv_def)
next
  case (tick d)
  then show ?thesis using assms(1) by (simp add: poolInv_def)
next
  case (wake i req due t p w')
  have c: "consistent (pworld P) (observed P)" using assms(1) by (simp add: poolInv_def)
  have hs: "\<forall>h \<in> set (hooks P). okPending (getEndpointKey (fst h)) (snd h)"
    using assms(1) by (simp add: poolInv_def)
  have "okPending (getEndpointKey req) (Sleeping due t)"
    by (rule okPending_nth[OF hs wake(2,3)])
  then have dt: "disciplined (getEndpointKey req) t None" by simp
  have pre: "case None of None \<Rightarrow> consistent (pworld P) (observed P)
        | Some resp \<Rightarrow> consistentBut (getEndpointKey req) (pworld P) (observed P) \<and>
            lastSignal (observed P) (getEndpointKey req) = Some (resp, now (pworld P))"
    using c by simp
  have d: "consistent w' (observed P) \<and> okPending (getEndpointKey req) p \<and>
      now w' = now (pworld P) \<and>
      (\<forall>k. throttledAt w' k \<and> \<not> throttledAt (pworld P) k \<longrightarrow>
         k = getEndpointKey req \<and> (None::response option) \<noteq> None)"
    by (rule drive_disciplined[OF dt pre wake(5)])
  then show ?thesis
    using okPending_update[OF hs, of req p i] wake(1) by (auto simp: poolInv_def)
next
  case (settle i req rq op k outcome p w')
  have c: "consistent (pworld P) (observed P)" using assms(1) by (simp add: poolInv_def)
  have hs: "\<forall>h \<in> set (hooks P). okPending (getEndpointKey (fst h)) (snd h)"
    using assms(1) by (simp add: poolInv_def)
  have "okPending (getEndpointKey req) (Fetching rq op k)"
    by (rule okPending_nth[OF hs settle(2,3)])
  then have dt: "disciplined (getEndpointKey req) (k outcome) None" by simp
  have pre: "case None of None \<Rightarrow> consistent (pworld P) (observed P)
        | Some resp \<Rightarrow> consistentBut (getEndpointKey req) (pworld P) (observed P) \<and>
            lastSignal (observed P) (getEndpointKey req) = Some (resp, now (pworld P))"
    using c by simp
  have d: "consistent w' (observed P) \<and> okPending (getEndpointKey req) p \<and>
      now w' = now (pworld P) \<and>
      (\<forall>k. throttledAt w' k \<and> \<not> throttledAt (pworld P) k \<longrightarrow>
         k = getEndpointKey req \<and> (None::response option) \<noteq> None)"
    by (rule drive_disciplined[OF dt pre settle(4)])
  then show ?thesis
    using okPending_update[OF hs, of req p i] settle(1) by (auto simp: poolInv_def)
next
  case (parsed i req resp k p w')
  define log' where "log' = observed P @ [(getEndpointKey req, resp, now (pworld P))]"
  define pend where "pend = (if isSignal resp then Some resp else None)"
  have c: "consistent (pworld P) (observed P)" using assms(1) by (simp add: poolInv_def)
  have hs: "\<forall>h \<in> set (hooks P). okPending (getEndpointKey (fst h)) (snd h)"
    using assms(1) by (simp add: poolInv_def)
  have "okPending (getEndpointKey req) (Reading resp k)"
    by (rule okPending_nth[OF hs parsed(2,3)])
  then have dt: "disciplined (getEndpointKey req) (k (body resp)) pend" by (simp add: pend_def)
  have pre: "case pend of None \<Rightarrow> consistent (pworld P) log'
        | Some resp' \<Rightarrow> consistentBut (getEndpointKey req) (pworld P) log' \<and>
            lastSignal log' (getEndpointKey req) = Some (resp', now (pworld P))"
    unfolding pend_def log'_def by (rule consistent_observe[OF c])
  have d: "consistent w' log' \<and> okPending (getEndpointKey req) p \<and>
      now w' = now (pworld P) \<and>
      (\<forall>k. throttledAt w' k \<and> \<not> throttledAt (pworld P) k \<longrightarrow>
         k = getEndpointKey req \<and> pend \<noteq> None)"
    by (rule drive_disciplined[OF dt pre parsed(4)])
  have sig: "pend \<noteq> None \<Longrightarrow> isSignal resp" by (simp add: pend_def split: if_splits)
  show ?thesis
    using d okPending_update[OF hs, of req p i] parsed(1) sig
    by (auto simp: poolInv_def log'_def)
qed

lemma reachable_poolInv: "reachable P \<Longrightarrow> poolInv P"
proof (induction rule: reachable.induct)
  case (created t0)
  show ?case by (simp add: poolInv_def consistent_def)
next
  case (after P Q)
  then show ?case using step_poolInv by blast
qed

lemma perform_step:
  assumes "perform a P = Some Q"
  shows "step P Q"
proof (cases a)
  case (CallOnRequest req)
  then show ?thesis using assms by (auto split: prod.splits intro: step.callOnRequest)
next
  case (CallOnResponse req resp)
  then show ?thesis using assms by (auto split: prod.splits intro: step.callOnResponse)
next
  case (Tick d)
  then show ?thesis using assms by (auto split: if_splits intro: step.tick)
next
  case (Wake i)
  then show ?thesis using assms
    by (auto split: if_splits prod.splits pending.splits intro: step.wake)
next
  case (Settle i outcome)
  then show ?thesis using assms
    by (auto split: if_splits prod.splits pending.splits intro: step.settle)
next
  case (ReadBody i)
  then show ?thesis using assms
    by (auto split: if_splits prod.splits pending.splits intro: step.parsed)
qed

lemma performAll_reachable: "reachable P \<Longrightarrow> reachable (performAll as P)"
proof (induction as arbitrary: P)
  case Nil
  then show ?case by simp
next
  case (Cons a as)
  show ?case
  proof (cases "perform a P")
    case None
    then show ?thesis using Cons by simp
  next
    case (Some Q)
    then have "reachable Q" using Cons.prems perform_step reachable.after by blast
    then show ?thesis using Some Cons.IH by simp
  qed
qed

lemma lastSignal_isSignal: "lastSignal log k = Some (resp, t) \<Longrightarrow> isSignal resp"
proof -
  assume a: "lastSignal log k = Some (resp, t)"
  define obs where "obs = filter (\<lambda>ob. fst ob = k \<and> isSignal (fst (snd ob))) log"
  have ne: "obs \<noteq> []" and l: "snd (last obs) = (resp, t)"
    using a by (auto simp: lastSignal_alt obs_def split: if_splits)
  have "last obs \<in> set obs" using ne by simp
  then have "isSignal (fst (snd (last obs)))" by (simp add: obs_def)
  then show ?thesis using l by simp
qed

lemma step_perform:
  assumes "step P Q"
  shows "\<exists>a. perform a P = Some Q"
  using assms
proof cases
  case (callOnRequest req p w')
  then have "perform (CallOnRequest req) P = Some Q" by simp
  then show ?thesis by blast
next
  case (callOnResponse req resp p w')
  then have "perform (CallOnResponse req resp) P = Some Q" by simp
  then show ?thesis by blast
next
  case (tick d)
  then have "perform (Tick d) P = Some Q" by simp
  then show ?thesis by blast
next
  case (wake i req due t p w')
  then have "perform (Wake i) P = Some Q" by simp
  then show ?thesis by blast
next
  case (settle i req rq op k outcome p w')
  then have "perform (Settle i outcome) P = Some Q" by simp
  then show ?thesis by blast
next
  case (parsed i req resp k p w')
  then have "perform (ReadBody i) P = Some Q" by simp
  then show ?thesis by blast
qed

text \<open>
  Claim C10. In every state that a middleware reaches, through any interleaving of calls of
  the two hooks, passing time, timers, answers of the transport and bodies read, an
  endpoint whose \<^verbatim>\<open>isThrottled\<close> is true holds in \<^verbatim>\<open>retryAfter\<close> and \<^verbatim>\<open>lastRetryTime\<close> the
  Retry-After time of the last retryable 429 observed for it and the time of that
  observation. And a step after which an endpoint is throttled that was not throttled
  before is the observation of a retryable 429 for that endpoint, which sets the two other
  fields from that response and from the clock.
\<close>

theorem throttled_reflects_last_signal:
  "(reachable P \<and> endpointStates (pworld P) endpointKey = Some st \<and> isThrottled st \<longrightarrow>
      (\<exists>resp t. lastSignal (observed P) endpointKey = Some (resp, t) \<and> isSignal resp \<and>
         retryAfter st = getRetryAfterTime resp \<and> lastRetryTime st = t)) \<and>
   (reachable P \<and> step P Q \<and>
    throttledAt (pworld Q) endpointKey \<and> \<not> throttledAt (pworld P) endpointKey \<longrightarrow>
      (\<exists>resp st'. isSignal resp \<and>
         observed Q = observed P @ [(endpointKey, resp, now (pworld P))] \<and>
         endpointStates (pworld Q) endpointKey = Some st' \<and>
         retryAfter st' = getRetryAfterTime resp \<and> lastRetryTime st' = now (pworld P)))"
proof (intro conjI impI)
  assume h: "reachable P \<and> endpointStates (pworld P) endpointKey = Some st \<and> isThrottled st"
  then have "consistent (pworld P) (observed P)"
    using reachable_poolInv by (simp add: poolInv_def)
  then obtain resp t where r: "lastSignal (observed P) endpointKey = Some (resp, t)"
      "retryAfter st = getRetryAfterTime resp" "lastRetryTime st = t"
    using h unfolding consistent_def by blast
  have "isSignal resp" by (rule lastSignal_isSignal[OF r(1)])
  then show "\<exists>resp t. lastSignal (observed P) endpointKey = Some (resp, t) \<and> isSignal resp \<and>
         retryAfter st = getRetryAfterTime resp \<and> lastRetryTime st = t"
    using r by blast
next
  assume h: "reachable P \<and> step P Q \<and>
    throttledAt (pworld Q) endpointKey \<and> \<not> throttledAt (pworld P) endpointKey"
  then have inv: "poolInv P" and st: "step P Q" using reachable_poolInv by simp_all
  from step_poolInv[OF inv st] h
  obtain resp where r: "isSignal resp"
      "observed Q = observed P @ [(endpointKey, resp, now (pworld P))]"
    and q: "consistent (pworld Q) (observed Q)"
    by (auto simp: poolInv_def)
  obtain st' where s: "endpointStates (pworld Q) endpointKey = Some st'" "isThrottled st'"
    using h by (auto simp: throttledAt_iff)
  then obtain resp' t where l: "lastSignal (observed Q) endpointKey = Some (resp', t)"
      "retryAfter st' = getRetryAfterTime resp'" "lastRetryTime st' = t"
    using q unfolding consistent_def by blast
  have "resp' = resp \<and> t = now (pworld P)"
    using l(1) r by (simp add: lastSignal_snoc)
  then show "\<exists>resp st'. isSignal resp \<and>
         observed Q = observed P @ [(endpointKey, resp, now (pworld P))] \<and>
         endpointStates (pworld Q) endpointKey = Some st' \<and>
         retryAfter st' = getRetryAfterTime resp \<and> lastRetryTime st' = now (pworld P)"
    using r s l by blast
qed

lemma exCreated_reachable: "reachable exCreated"
  unfolding exCreated_def by (rule reachable.created)

lemma exCalled_reachable: "reachable exCalled"
  unfolding exCalled_def by (rule performAll_reachable[OF exCreated_reachable])

lemma exSignalled_reachable: "reachable exSignalled"
  unfolding exSignalled_def by (rule performAll_reachable[OF exCalled_reachable])

lemma exCalled_world: "pworld exCalled = \<lparr>now = 0, endpointStates = Map.empty, console = []\<rparr>"
  by (simp add: exCalled_def exCreated_def onResponse_def handleResponse_def isRetryable_def
      exLimited_def)

lemma exCalled_observed: "observed exCalled = []"
  by (simp add: exCalled_def exCreated_def onResponse_def handleResponse_def isRetryable_def
      exLimited_def)

lemma snd_drive_retryLoop:
  "snd (drive (bind (retryLoop req key 0 secs lastR) f) w) = w"
  by (simp add: retryLoop.simps[of req key 0] maxRetries_def)

lemma exCalled_hooks:
  "\<exists>k. hooks exCalled = [(exRequest, Reading exLimited k)] \<and>
       snd (drive (k (body exLimited)) (pworld exCalled)) =
          \<lparr>now = 0,
            endpointStates = [getEndpointKey exRequest \<mapsto>
              \<lparr>isThrottled = True, retryAfter = 2, queue = [], lastRetryTime = 0,
               processing = False\<rparr>],
            console = []\<rparr>"
proof -
  have s: "status exLimited = 429" and b: "body exLimited = Some (JObject [(''retryable'', JBool True)])"
    by (simp_all add: exLimited_def)
  show ?thesis
    by (simp add: exCalled_def exCreated_def onResponse_def handleResponse_def isRetryable_def
        s b exLimited_secs Let_def snd_drive_retryLoop initState_def modState_def defaultState_def)
qed

lemma exSignalled_facts:
  "perform (ReadBody 0) exCalled = Some exSignalled \<and>
   pworld exSignalled =
     \<lparr>now = 0,
       endpointStates = [getEndpointKey exRequest \<mapsto>
         \<lparr>isThrottled = True, retryAfter = 2, queue = [], lastRetryTime = 0,
          processing = False\<rparr>],
       console = []\<rparr> \<and>
   observed exSignalled = [(getEndpointKey exRequest, exLimited, 0)]"
proof -
  obtain k where k: "hooks exCalled = [(exRequest, Reading exLimited k)]"
    "snd (drive (k (body exLimited)) (pworld exCalled)) =
          \<lparr>now = 0,
            endpointStates = [getEndpointKey exRequest \<mapsto>
              \<lparr>isThrottled = True, retryAfter = 2, queue = [], lastRetryTime = 0,
               processing = False\<rparr>],
            console = []\<rparr>"
    using exCalled_hooks by blast
  show ?thesis
    using k by (simp add: exSignalled_def exCalled_world exCalled_observed split_beta)
qed

theorem throttled_reflects_last_signal_witness:
  "reachable exSignalled \<and> step exCalled exSignalled \<and>
   \<not> throttledAt (pworld exCalled) (getEndpointKey exRequest) \<and>
   throttledAt (pworld exSignalled) (getEndpointKey exRequest) \<and>
   lastSignal (observed exSignalled) (getEndpointKey exRequest) = Some (exLimited, 0) \<and>
   observed exSignalled = observed exCalled @ [(getEndpointKey exRequest, exLimited, 0)] \<and>
   (\<exists>st. endpointStates (pworld exSignalled) (getEndpointKey exRequest) = Some st \<and>
      retryAfter st = getRetryAfterTime exLimited \<and> lastRetryTime st = 0)"
proof -
  have st: "step exCalled exSignalled"
    using exSignalled_facts perform_step by blast
  have nt: "\<not> throttledAt (pworld exCalled) (getEndpointKey exRequest)"
    by (simp add: exCalled_world throttledAt_def)
  have ent: "endpointStates (pworld exSignalled) (getEndpointKey exRequest) =
      Some \<lparr>isThrottled = True, retryAfter = 2, queue = [], lastRetryTime = 0,
            processing = False\<rparr>"
    by (simp add: exSignalled_facts)
  have th: "throttledAt (pworld exSignalled) (getEndpointKey exRequest)"
    by (simp add: exSignalled_facts throttledAt_def)
  have sig: "isSignal exLimited"
    by (simp add: isSignal_def exLimited_retryable)
  have ls: "lastSignal [(getEndpointKey exRequest, exLimited, 0)] (getEndpointKey exRequest) =
      Some (exLimited, 0)"
    by (simp add: lastSignal_def sig)
  show ?thesis
    using throttled_reflects_last_signal
      [where P = exSignalled and endpointKey = "getEndpointKey exRequest"
         and st = "\<lparr>isThrottled = True, retryAfter = 2, queue = [], lastRetryTime = 0,
                        processing = False\<rparr>"]
      throttled_reflects_last_signal
      [where P = exCalled and Q = exSignalled and endpointKey = "getEndpointKey exRequest"]
      exSignalled_reachable exCalled_reachable st nt th ent
    by (auto simp: exSignalled_facts exCalled_observed ls exLimited_secs)
qed

lemma exec_retryLoop_v1_exhausted:
  "\<not> attempt < maxRetries \<Longrightarrow>
   exec E (retryLoop_v1 req key attempt secs lastR) r = (Inr lastR, cleared key r)"
  by (simp add: retryLoop_v1.simps cleared_def)

lemma exec_retryLoop_v1_error:
  "attempt < maxRetries \<Longrightarrow> transport E (sends (trace r)) req [] = Inl err \<Longrightarrow>
   exec E (retryLoop_v1 req key attempt secs lastR) r =
     (Inl err, cleared key (afterSend E req secs r))"
  by (simp add: retryLoop_v1.simps cleared_def afterSend_def)

lemma exec_retryLoop_v1_other:
  "attempt < maxRetries \<Longrightarrow> transport E (sends (trace r)) req [] = Inr rr \<Longrightarrow>
   status rr \<noteq> 429 \<Longrightarrow>
   exec E (retryLoop_v1 req key attempt secs lastR) r =
     (Inr rr, cleared key (afterSend E req secs r))"
  by (simp add: retryLoop_v1.simps cleared_def afterSend_def)

lemma exec_retryLoop_v1_again:
  "attempt < maxRetries \<Longrightarrow> transport E (sends (trace r)) req [] = Inr rr \<Longrightarrow>
   status rr = 429 \<Longrightarrow>
   exec E (retryLoop_v1 req key attempt secs lastR) r =
     exec E (retryLoop_v1 req key (Suc attempt) (getRetryAfterTime rr) rr)
       (recorded key rr (afterSend E req secs r))"
  by (simp add: retryLoop_v1.simps recorded_def afterSend_def)

lemma exec_handleResponse_v1:
  "status resp = 429 \<Longrightarrow>
   exec E (handleResponse_v1 req resp) r =
     exec E (retryLoop_v1 req (getEndpointKey req) 0 (getRetryAfterTime resp) resp)
       (started_v1 req resp r)"
  by (simp add: handleResponse_v1_def started_v1_def Let_def)

lemma trace_started_v1 [simp]: "trace (started_v1 req resp r) = trace r"
  by (simp add: started_v1_def)

text \<open>
  Where no 429 is marked not retryable, the two variants of the loop give the same result
  and call the transport the same number of times, with the same arguments.
\<close>

lemma retryLoop_v1_agrees:
  assumes "\<forall>n rr. transport E n req [] = Inr rr \<and> status rr = 429 \<longrightarrow> \<not> markedNotRetryable rr"
  shows "maxRetries - attempt = n \<Longrightarrow> filter isSent (trace r1) = filter isSent (trace r2) \<Longrightarrow>
    fst (exec E (retryLoop_v1 req key attempt secs lastR) r1) =
      fst (exec E (retryLoop req key attempt secs lastR) r2) \<and>
    filter isSent (trace (snd (exec E (retryLoop_v1 req key attempt secs lastR) r1))) =
      filter isSent (trace (snd (exec E (retryLoop req key attempt secs lastR) r2)))"
proof (induction n arbitrary: attempt secs lastR r1 r2)
  case 0
  then have "\<not> attempt < maxRetries" by simp
  then show ?case using 0 by (simp add: exec_retryLoop_exhausted exec_retryLoop_v1_exhausted)
next
  case (Suc n)
  then have lt: "attempt < maxRetries" by simp
  have n: "maxRetries - Suc attempt = n" using Suc.prems by simp
  have s: "sends (trace r1) = sends (trace r2)" using Suc.prems(2) by (simp add: sends_def)
  show ?case
  proof (cases "transport E (sends (trace r2)) req []")
    case (Inl err)
    then have i1: "transport E (sends (trace r1)) req [] = Inl err" using s by simp
    show ?thesis
      using exec_retryLoop_error[OF lt Inl, of key secs lastR]
        exec_retryLoop_v1_error[OF lt i1, of key secs lastR] Suc.prems(2)
      by simp
  next
    case (Inr rr)
    then have i1: "transport E (sends (trace r1)) req [] = Inr rr" using s by simp
    show ?thesis
    proof (cases "status rr = 429")
      case False
      then show ?thesis
        using exec_retryLoop_other[OF lt Inr, of key secs lastR]
          exec_retryLoop_v1_other[OF lt i1, of key secs lastR] Suc.prems(2)
        by simp
    next
      case True
      then have nm: "\<not> markedNotRetryable rr" using assms Inr by blast
      define q1 where "q1 = recorded key rr (afterSend E req secs r1)"
      define q2 where "q2 = recorded key rr (suspend E (Parsed rr) 0 (afterSend E req secs r2))"
      have e1: "exec E (retryLoop_v1 req key attempt secs lastR) r1 =
          exec E (retryLoop_v1 req key (Suc attempt) (getRetryAfterTime rr) rr) q1"
        unfolding q1_def by (rule exec_retryLoop_v1_again[OF lt i1 True])
      have e2: "exec E (retryLoop req key attempt secs lastR) r2 =
          exec E (retryLoop req key (Suc attempt) (getRetryAfterTime rr) rr) q2"
        unfolding q2_def by (rule exec_retryLoop_again[OF lt Inr True nm])
      have f: "filter isSent (trace q1) = filter isSent (trace q2)"
        using Suc.prems(2) by (simp add: q1_def q2_def)
      have "fst (exec E (retryLoop_v1 req key (Suc attempt) (getRetryAfterTime rr) rr) q1) =
          fst (exec E (retryLoop req key (Suc attempt) (getRetryAfterTime rr) rr) q2) \<and>
        filter isSent (trace (snd (exec E (retryLoop_v1 req key (Suc attempt)
            (getRetryAfterTime rr) rr) q1))) =
          filter isSent (trace (snd (exec E (retryLoop req key (Suc attempt)
            (getRetryAfterTime rr) rr) q2)))"
        by (rule Suc.IH[OF n f])
      then show ?thesis using e1 e2 by simp
    qed
  qed
qed

lemma handleResponse_v1_agrees:
  assumes "\<forall>n rr. transport E n req [] = Inr rr \<and> status rr = 429 \<longrightarrow> \<not> markedNotRetryable rr"
    and "\<not> markedNotRetryable resp"
  shows "fst (exec E (handleResponse_v1 req resp) r) = fst (exec E (handleResponse req resp) r) \<and>
    filter isSent (trace (snd (exec E (handleResponse_v1 req resp) r))) =
      filter isSent (trace (snd (exec E (handleResponse req resp) r)))"
proof (cases "status resp = 429")
  case False
  then show ?thesis by (simp add: handleResponse_def handleResponse_v1_def)
next
  case True
  have f: "filter isSent (trace (started_v1 req resp r)) =
      filter isSent (trace (started E req resp r))"
    by simp
  show ?thesis
    using retryLoop_v1_agrees[OF assms(1) refl f, where attempt = 0
        and key = "getEndpointKey req" and secs = "getRetryAfterTime resp" and lastR = resp]
      True assms(2)
    by (simp add: exec_handleResponse_v1 exec_handleResponse_retryable)
qed

text \<open>
  Claim C5 holds of the variant with the retryability check and fails for the variant
  without it. Given a 429 with the body \<^verbatim>\<open>{"type": "rate_limit_error", "retryable": false}\<close>
  and a transport that answers 200, \<^verbatim>\<open>handleResponse\<close> of the variant without the check
  calls \<^verbatim>\<open>delay(1000)\<close>, sends the request once, returns the 200 and has created and written
  the entry of the endpoint; \<^verbatim>\<open>handleResponse\<close> of the variant with the check returns the
  429 after reading its body, with no wait, no send and no entry.
\<close>

theorem handleResponse_v1_retries_marked:
  "status exRefused = 429 \<and> markedNotRetryable exRefused \<and>
   fst (exec (envAnswering (Inr exSuccess)) (handleResponse_v1 exRequest exRefused) exStart) =
     Inr exSuccess \<and>
   trace (snd (exec (envAnswering (Inr exSuccess)) (handleResponse_v1 exRequest exRefused) exStart)) =
     [Slept 1000, Sent exRequest []] \<and>
   stateOf (rworld exStart) exRequest = None \<and>
   stateOf (rworld (snd (exec (envAnswering (Inr exSuccess))
       (handleResponse_v1 exRequest exRefused) exStart))) exRequest =
     Some \<lparr>isThrottled = False, retryAfter = 1, queue = [], lastRetryTime = 0,
           processing = False\<rparr> \<and>
   fst (exec (envAnswering (Inr exSuccess)) (handleResponse exRequest exRefused) exStart) =
     Inr exRefused \<and>
   trace (snd (exec (envAnswering (Inr exSuccess)) (handleResponse exRequest exRefused) exStart)) =
     [Parsed exRefused] \<and>
   stateOf (rworld (snd (exec (envAnswering (Inr exSuccess))
       (handleResponse exRequest exRefused) exStart))) exRequest = None"
proof -
  have s: "status exRefused = 429" by (simp add: exRefused_def)
  have g: "getRetryAfterTime exRefused = 1"
    by (simp add: exRefused_def getRetryAfterTime_def headers_get_def toLower_def parseInt_def
        isWhiteSpace_def isDigit_def digitsValue_def digitValue_def)
  have lt: "0 < maxRetries" by (simp add: maxRetries_def)
  have t: "transport (envAnswering (Inr exSuccess)) (sends (trace (started_v1 exRequest exRefused exStart)))
      exRequest [] = Inr exSuccess"
    by (simp add: envAnswering_def)
  have ns: "status exSuccess \<noteq> 429" by (simp add: exSuccess_def)
  have v1: "exec (envAnswering (Inr exSuccess)) (handleResponse_v1 exRequest exRefused) exStart =
      (Inr exSuccess,
       cleared (getEndpointKey exRequest)
         (afterSend (envAnswering (Inr exSuccess)) exRequest 1
            (started_v1 exRequest exRefused exStart)))"
    using exec_retryLoop_v1_other[OF lt t ns, of "getEndpointKey exRequest" 1 exRefused]
    by (simp add: exec_handleResponse_v1[OF s] g)
  have v1t: "trace (snd (exec (envAnswering (Inr exSuccess))
      (handleResponse_v1 exRequest exRefused) exStart)) = [Slept 1000, Sent exRequest []]"
    unfolding v1
    by (simp add: cleared_def afterSend_def suspend_def started_v1_def exStart_def)
  have v1s: "stateOf (rworld (snd (exec (envAnswering (Inr exSuccess))
       (handleResponse_v1 exRequest exRefused) exStart))) exRequest =
     Some \<lparr>isThrottled = False, retryAfter = 1, queue = [], lastRetryTime = 0,
           processing = False\<rparr>"
    unfolding v1
    by (simp add: stateOf_def cleared_def clearThrottled_def modState_def afterSend_def
        suspend_def started_v1_def initState_def defaultState_def exStart_def g)
  have v2: "exec (envAnswering (Inr exSuccess)) (handleResponse exRequest exRefused) exStart =
      (Inr exRefused, suspend (envAnswering (Inr exSuccess)) (Parsed exRefused) 0 exStart)"
    using exRefused_marked by (simp add: exec_handleResponse_marked)
  have v2t: "trace (snd (exec (envAnswering (Inr exSuccess))
      (handleResponse exRequest exRefused) exStart)) = [Parsed exRefused]"
    unfolding v2 by (simp add: suspend_def exStart_def)
  have v2s: "stateOf (rworld (snd (exec (envAnswering (Inr exSuccess))
       (handleResponse exRequest exRefused) exStart))) exRequest = None"
    unfolding v2 by (simp add: suspend_def stateOf_def exStart_def)
  have s0: "stateOf (rworld exStart) exRequest = None"
    by (simp add: stateOf_def exStart_def)
  have v1f: "fst (exec (envAnswering (Inr exSuccess))
      (handleResponse_v1 exRequest exRefused) exStart) = Inr exSuccess"
    unfolding v1 by simp
  have v2f: "fst (exec (envAnswering (Inr exSuccess))
      (handleResponse exRequest exRefused) exStart) = Inr exRefused"
    unfolding v2 by simp
  have m: "markedNotRetryable exRefused" using exRefused_marked by simp
  from s m v1f v1t s0 v1s v2f v2t v2s show ?thesis
    by (intro conjI)
qed

text \<open>A timeout above \<open>2^31 - 1\<close> ms, as a Retry-After time of 2147484 seconds gives, is not kept.\<close>

lemma timerDelay_overflow: "timerDelay (2147484 * 1000) = 0 \<and> timerDelay (2 * 1000) = 2000"
  by (simp add: timerDelay_def)

subsection \<open>One hook among many\<close>

text \<open>
  The run of one hook is one schedule of the pool: the hook is driven to its next
  suspension, time passes, and it goes on with what the environment gives.
\<close>

lemma exec_drive:
  "case drive t (rworld r) of
     (Finished res, w) \<Rightarrow> exec E t r = (res, r\<lparr>rworld := w\<rparr>)
   | (Sleeping due t', w) \<Rightarrow>
       \<exists>ms. due = now w + timerDelay ms \<and>
            exec E t r = exec E t' (suspend E (Slept ms) (timerDelay ms) (r\<lparr>rworld := w\<rparr>))
   | (Fetching rq op k, w) \<Rightarrow>
       exec E t r =
         exec E (k (transport E (sends (trace r)) rq op))
           (suspend E (Sent rq op) 0 (r\<lparr>rworld := w\<rparr>))
   | (Reading resp k, w) \<Rightarrow>
       exec E t r = exec E (k (body resp)) (suspend E (Parsed resp) 0 (r\<lparr>rworld := w\<rparr>))"
proof (induction t arbitrary: r)
  case (Get k)
  have "k (rworld r) \<in> range k" by simp
  from Get.IH[OF this, of r] show ?case
    by (auto split: prod.splits pending.splits)
next
  case (Put g t)
  from Put.IH[of "r\<lparr>rworld := g (rworld r)\<rparr>"] show ?case
    by (auto split: prod.splits pending.splits)
next
  case (Delay ms t)
  show ?case by (auto intro: exI[of _ ms])
qed simp_all

end
